theory Spec2Isabelle
  imports Complex_Main "HOL-Library.Word" "HOL-Library.Multiset"
begin

unbundle bit_operations_syntax

section \<open>Data model (comux.h)\<close>

text \<open>
  A comux file is a 20-byte header followed by chunk records.  Bytes are 8-bit words,
  the integer fields of the C structs are words of their declared width, and a
  \<open>buffer_t\<close> is the list of the bytes it currently holds.
\<close>

type_synonym byte = "8 word"
type_synonym u32 = "32 word"
type_synonym u64 = "64 word"

text \<open>\<open>struct comux_header\<close>.\<close>

record comux_header =
  magic :: "byte list"
  version :: u32
  num_conns :: u32
  num_chunks :: u32

text \<open>
  \<open>struct comux_chunk_info\<close>.  The field \<open>id\<close> of the C struct is called \<open>id_conn\<close>
  here, since \<open>id\<close> is the identity function of HOL.
\<close>

record comux_cinfo =
  id_conn :: u32
  len :: u64
  sched :: u32
  flags :: u32
  data :: "byte list"
  offset :: int

text \<open>\<open>enum comux_chunk_flags\<close>.\<close>

definition COMUX_CHUNK_FLAGS_NONE :: u32 where
  "COMUX_CHUNK_FLAGS_NONE = 0x0"

definition COMUX_CHUNK_FLAGS_AWAIT_RESPONSE :: u32 where
  "COMUX_CHUNK_FLAGS_AWAIT_RESPONSE = 0x1"

definition COMUX_CHUNK_FLAGS_NO_SHUTDOWN :: u32 where
  "COMUX_CHUNK_FLAGS_NO_SHUTDOWN = 0x2"

definition COMUX_CHUNK_FLAGS_ALL :: u32 where
  "COMUX_CHUNK_FLAGS_ALL = 0x3"

text \<open>\<open>enum comux_parse_result\<close>.\<close>

datatype comux_parse_result =
    COMUX_PARSE_OK
  | COMUX_PARSE_EOF
  | COMUX_PARSE_BAD_MAGIC
  | COMUX_PARSE_BAD_VERSION
  | COMUX_PARSE_BAD_NUM_CONNS
  | COMUX_PARSE_BAD_NUM_CHUNKS
  | COMUX_PARSE_BAD_CONN_ID
  | COMUX_PARSE_BAD_CONN_LEN
  | COMUX_PARSE_BAD_CONN_SCHED
  | COMUX_PARSE_BAD_CONN_FLAGS
  | COMUX_PARSE_CONN_LEN_MISMATCH

text \<open>
  \<open>struct comux_manifest\<close>: the header and the list of chunks (a doubly-linked list
  in C, used only through \<open>dllist_push_tail\<close>, \<open>dllist_remove\<close> and iteration from
  the head).  The fields \<open>header\<close> and \<open>cinfo_list\<close> carry the prefix \<open>manifest_\<close>.
\<close>

record comux_manifest =
  manifest_header :: comux_header
  manifest_cinfo_list :: "comux_cinfo list"

text \<open>\<open>COMUX_MAGIC\<close> is the string \<open>comux!!!\<close>, \<open>COMUX_MAGIC_LEN\<close> is 8.\<close>

definition COMUX_MAGIC :: "byte list" where
  "COMUX_MAGIC = [0x63, 0x6f, 0x6d, 0x75, 0x78, 0x21, 0x21, 0x21]"

definition COMUX_MAGIC_LEN :: nat where
  "COMUX_MAGIC_LEN = 8"

definition COMUX_CHUNK_DATA_MAXLEN :: u64 where
  "COMUX_CHUNK_DATA_MAXLEN = 524288"

section \<open>Byte primitives (utils.c)\<close>

text \<open>
  \<open>INT_TO_BYTES_HELPER\<close> and \<open>BYTES_TO_INT_HELPER\<close>: the loops over
  \<open>shift = 0, 8, ...\<close> of \<open>u32_to_bytes\<close>, \<open>bytes_to_u32\<close>, \<open>u64_to_bytes\<close> and
  \<open>bytes_to_u64\<close>; the least significant byte comes first.
\<close>

definition u32_to_bytes :: "u32 \<Rightarrow> byte list" where
  "u32_to_bytes val = map (\<lambda>shift. ucast (drop_bit shift val AND 0xff)) [0, 8, 16, 24]"

definition bytes_to_u32 :: "byte list \<Rightarrow> u32" where
  "bytes_to_u32 src =
     fold (\<lambda>shift result. result OR push_bit shift (ucast (src ! (shift div 8))))
       [0, 8, 16, 24] 0"

definition u64_to_bytes :: "u64 \<Rightarrow> byte list" where
  "u64_to_bytes val =
     map (\<lambda>shift. ucast (drop_bit shift val AND 0xff)) [0, 8, 16, 24, 32, 40, 48, 56]"

definition bytes_to_u64 :: "byte list \<Rightarrow> u64" where
  "bytes_to_u64 src =
     fold (\<lambda>shift result. result OR push_bit shift (ucast (src ! (shift div 8))))
       [0, 8, 16, 24, 32, 40, 48, 56] 0"

section \<open>The codec on memory buffers (comux.c)\<close>

text \<open>
  A buffer argument \<open>(char* buff, size_t buff_len)\<close> is the list of its \<open>buff_len\<close>
  bytes; \<open>buff + k\<close> is \<open>drop k buff\<close>.  A \<open>size_t\<close> is a \<open>nat\<close> and a \<open>ssize_t\<close> an
  \<open>int\<close>: they count bytes of buffers held in memory, so they stay far below \<open>2^63\<close>
  and never wrap.  A function that writes through pointers returns the new values
  next to its result; an out-parameter that a failing call leaves alone (\<open>read_len\<close>)
  is passed in and handed back.
\<close>

definition comux_header_init :: comux_header where
  "comux_header_init = \<lparr>magic = COMUX_MAGIC, version = 0, num_conns = 0, num_chunks = 0\<rparr>"

definition comux_cinfo_init :: comux_cinfo where
  "comux_cinfo_init =
     \<lparr>id_conn = 0, len = 0, sched = 0, flags = COMUX_CHUNK_FLAGS_NONE, data = [], offset = 0\<rparr>"

definition comux_manifest_init :: comux_manifest where
  "comux_manifest_init = \<lparr>manifest_header = comux_header_init, manifest_cinfo_list = []\<rparr>"

text \<open>
  \<open>comux_header_write_buffer\<close>: the result (bytes written, or minus the room needed)
  and the bytes written to \<open>buff\<close>.
\<close>

definition comux_header_write_buffer :: "comux_header \<Rightarrow> nat \<Rightarrow> int \<times> byte list" where
  "comux_header_write_buffer header max_len =
     (let space_needed = COMUX_MAGIC_LEN + 4 + 4 + 4 in
      if max_len < space_needed then (- int space_needed, [])
      else (int space_needed,
            take COMUX_MAGIC_LEN (magic header) @ u32_to_bytes (version header) @
            u32_to_bytes (num_conns header) @ u32_to_bytes (num_chunks header)))"

definition comux_header_read_buffer ::
  "comux_header \<Rightarrow> byte list \<Rightarrow> nat \<Rightarrow> comux_parse_result \<times> comux_header \<times> nat" where
  "comux_header_read_buffer header buff read_len =
     (let space_remaining = int (length buff) - int COMUX_MAGIC_LEN in
      if space_remaining < 0 then (COMUX_PARSE_BAD_MAGIC, header, read_len) else
      let header = header\<lparr>magic := take COMUX_MAGIC_LEN buff\<rparr>;
          total_rcount = COMUX_MAGIC_LEN in
      if magic header \<noteq> COMUX_MAGIC then (COMUX_PARSE_BAD_MAGIC, header, read_len) else
      let space_remaining = space_remaining - 4 in
      if space_remaining < 0 then (COMUX_PARSE_BAD_VERSION, header, read_len) else
      let header = header\<lparr>version := bytes_to_u32 (take 4 (drop total_rcount buff))\<rparr>;
          total_rcount = total_rcount + 4;
          space_remaining = space_remaining - 4 in
      if space_remaining < 0 then (COMUX_PARSE_BAD_NUM_CONNS, header, read_len) else
      let header = header\<lparr>num_conns := bytes_to_u32 (take 4 (drop total_rcount buff))\<rparr>;
          total_rcount = total_rcount + 4;
          space_remaining = space_remaining - 4 in
      if space_remaining < 0 then (COMUX_PARSE_BAD_NUM_CHUNKS, header, read_len) else
      let header = header\<lparr>num_chunks := bytes_to_u32 (take 4 (drop total_rcount buff))\<rparr>;
          total_rcount = total_rcount + 4 in
      (COMUX_PARSE_OK, header, total_rcount))"

definition comux_cinfo_write_buffer :: "comux_cinfo \<Rightarrow> nat \<Rightarrow> int \<times> byte list" where
  "comux_cinfo_write_buffer cinfo max_len =
     (let space_needed = 4 + 8 + 4 + (4 :: nat) in
      if max_len < space_needed then (- int space_needed, [])
      else (int space_needed,
            u32_to_bytes (id_conn cinfo) @ u64_to_bytes (len cinfo) @
            u32_to_bytes (sched cinfo) @ u32_to_bytes (flags cinfo)))"

definition comux_cinfo_read_buffer ::
  "comux_cinfo \<Rightarrow> byte list \<Rightarrow> nat \<Rightarrow> comux_parse_result \<times> comux_cinfo \<times> nat" where
  "comux_cinfo_read_buffer cinfo buff read_len =
     (let total_rcount = (0 :: nat);
          space_remaining = int (length buff) - 4 in
      if space_remaining < 0 then (COMUX_PARSE_BAD_CONN_ID, cinfo, read_len) else
      let cinfo = cinfo\<lparr>id_conn := bytes_to_u32 (take 4 (drop total_rcount buff))\<rparr>;
          total_rcount = total_rcount + 4;
          space_remaining = space_remaining - 8 in
      if space_remaining < 0 then (COMUX_PARSE_BAD_CONN_LEN, cinfo, read_len) else
      let cinfo = cinfo\<lparr>len := bytes_to_u64 (take 8 (drop total_rcount buff))\<rparr>;
          total_rcount = total_rcount + 8;
          space_remaining = space_remaining - 4 in
      if space_remaining < 0 then (COMUX_PARSE_BAD_CONN_SCHED, cinfo, read_len) else
      let cinfo = cinfo\<lparr>sched := bytes_to_u32 (take 4 (drop total_rcount buff))\<rparr>;
          total_rcount = total_rcount + 4;
          space_remaining = space_remaining - 4 in
      if space_remaining < 0 then (COMUX_PARSE_BAD_CONN_FLAGS, cinfo, read_len) else
      let cinfo = cinfo\<lparr>flags := bytes_to_u32 (take 4 (drop total_rcount buff))\<rparr>;
          total_rcount = total_rcount + 4 in
      (COMUX_PARSE_OK, cinfo, total_rcount))"

text \<open>
  \<open>comux_cinfo_data_write_buffer\<close>.  \<open>space_needed\<close> is the \<open>uint64_t\<close> length read as
  a \<open>ssize_t\<close>; its comparison with the \<open>size_t\<close> \<open>buff_len\<close> is unsigned.  \<open>memcpy\<close>
  copies \<open>len\<close> bytes of the data buffer (the model has only the bytes the buffer
  holds, which is all of them whenever \<open>len\<close> is the size of the data).
\<close>

definition comux_cinfo_data_write_buffer :: "comux_cinfo \<Rightarrow> nat \<Rightarrow> int \<times> byte list" where
  "comux_cinfo_data_write_buffer cinfo buff_len =
     (let space_needed = sint (len cinfo) in
      if unat (len cinfo) > buff_len then (- space_needed, [])
      else (space_needed, take (unat (len cinfo)) (data cinfo)))"

text \<open>
  \<open>comux_cinfo_data_read_buffer\<close>: \<open>buffer_init\<close> empties the data, the macro
  \<open>comux_cinfo_data_appendn\<close> appends \<open>cap\<close> bytes and adds \<open>cap\<close> to \<open>len\<close>, then
  \<open>len\<close> is set to \<open>cap\<close>.  Returns the chunk and the number of bytes loaded.
\<close>

definition comux_cinfo_data_read_buffer :: "comux_cinfo \<Rightarrow> byte list \<Rightarrow> comux_cinfo \<times> nat" where
  "comux_cinfo_data_read_buffer cinfo buff =
     (let cap = (if len cinfo > COMUX_CHUNK_DATA_MAXLEN then COMUX_CHUNK_DATA_MAXLEN
                 else len cinfo);
          cap = min (unat cap) (length buff);
          cinfo = cinfo\<lparr>data := []\<rparr>;
          cinfo = cinfo\<lparr>data := data cinfo @ take cap buff, len := len cinfo + of_nat cap\<rparr>;
          cinfo = cinfo\<lparr>len := of_nat cap\<rparr>
      in (cinfo, cap))"

text \<open>
  The loop of \<open>comux_manifest_write_buffer\<close> over the chunks.  Each write goes to
  \<open>buff + total_wcount\<close>, the end of what has been written so far.
\<close>

fun write_chunks_buffer ::
  "comux_cinfo list \<Rightarrow> int \<Rightarrow> int \<Rightarrow> byte list \<Rightarrow> int \<times> byte list" where
  "write_chunks_buffer [] space_remaining total_wcount buff = (total_wcount, buff)"
| "write_chunks_buffer (cinfo # rest) space_remaining total_wcount buff =
     (case comux_cinfo_write_buffer cinfo (nat space_remaining) of (wcount, bytes) \<Rightarrow>
        if wcount < 0 then (wcount, buff) else
        let buff = buff @ bytes;
            total_wcount = total_wcount + wcount;
            space_remaining = max 0 (space_remaining - wcount) in
        (case comux_cinfo_data_write_buffer cinfo (nat space_remaining) of (wcount, bytes) \<Rightarrow>
           if wcount < 0 then (wcount, buff) else
           write_chunks_buffer rest (max 0 (space_remaining - wcount)) (total_wcount + wcount)
             (buff @ bytes)))"

definition comux_manifest_write_buffer :: "comux_manifest \<Rightarrow> nat \<Rightarrow> int \<times> byte list" where
  "comux_manifest_write_buffer manifest max_len =
     (let space_remaining = int max_len in
      case comux_header_write_buffer (manifest_header manifest) (nat space_remaining) of
        (wcount, bytes) \<Rightarrow>
          if wcount < 0 then (wcount, [])
          else write_chunks_buffer (manifest_cinfo_list manifest)
                 (max 0 (space_remaining - wcount)) wcount bytes)"

text \<open>
  The \<open>for\<close> loop of \<open>comux_manifest_read_buffer\<close>: \<open>i\<close> runs while it is below
  \<open>num_chunks\<close> and \<open>result\<close> is \<open>COMUX_PARSE_OK\<close>; a \<open>continue\<close> after a failure
  ends the loop at the next test of \<open>!result\<close>.
\<close>

function read_chunks_buffer ::
  "byte list \<Rightarrow> nat \<Rightarrow> nat \<Rightarrow> comux_parse_result \<Rightarrow> nat \<Rightarrow> nat \<Rightarrow> comux_cinfo list \<Rightarrow>
   comux_parse_result \<times> nat \<times> comux_cinfo list" where
  "read_chunks_buffer buff n i result rcount total_rcount cinfo_list =
     (if i < n \<and> result = COMUX_PARSE_OK then
        (case comux_cinfo_read_buffer comux_cinfo_init (drop total_rcount buff) rcount of
           (result, cinfo, rcount) \<Rightarrow>
             if result \<noteq> COMUX_PARSE_OK
             then read_chunks_buffer buff n (Suc i) result rcount total_rcount cinfo_list
             else
               let total_rcount = total_rcount + rcount;
                   expected_len = len cinfo in
               (case comux_cinfo_data_read_buffer cinfo (drop total_rcount buff) of
                  (cinfo, rcount) \<Rightarrow>
                    if rcount < unat expected_len
                    then read_chunks_buffer buff n (Suc i) COMUX_PARSE_CONN_LEN_MISMATCH
                           rcount total_rcount cinfo_list
                    else read_chunks_buffer buff n (Suc i) result rcount
                           (total_rcount + rcount) (cinfo_list @ [cinfo])))
      else (result, total_rcount, cinfo_list))"
  by pat_completeness auto
termination
  by (relation "measure (\<lambda>(buff, n, i, result, rcount, total_rcount, cinfo_list). n - i)") auto

declare read_chunks_buffer.simps [simp del]

text \<open>
  \<open>comux_manifest_read_buffer\<close>.  After the header has parsed, the function ends with
  \<open>*read_len = total_rcount; return COMUX_PARSE_OK;\<close> whatever \<open>result\<close> the loop
  left.
\<close>

definition comux_manifest_read_buffer ::
  "comux_manifest \<Rightarrow> byte list \<Rightarrow> nat \<Rightarrow> comux_parse_result \<times> comux_manifest \<times> nat" where
  "comux_manifest_read_buffer manifest buff read_len =
     (case comux_header_read_buffer (manifest_header manifest) buff 0 of
        (result, header, rcount) \<Rightarrow>
          let manifest = manifest\<lparr>manifest_header := header\<rparr> in
          if result \<noteq> COMUX_PARSE_OK then (result, manifest, read_len)
          else
            (case read_chunks_buffer buff (unat (num_chunks header)) 0 result rcount rcount
                    (manifest_cinfo_list manifest) of
               (result, total_rcount, cinfo_list) \<Rightarrow>
                 (COMUX_PARSE_OK, manifest\<lparr>manifest_cinfo_list := cinfo_list\<rparr>, total_rcount)))"

section \<open>The codec on file descriptors (comux.c)\<close>

text \<open>
  An open file descriptor on a regular file (the comux file, or standard input
  redirected from it): the bytes of the file and the current position.  \<open>read\<close>
  returns the bytes from the position on, at most the number asked for, and advances;
  it returns nothing at the end of the file.  Read errors (\<open>-1\<close>), on which
  \<open>read_check\<close> ends the process, are not part of this model.
\<close>

record fd_state =
  file_bytes :: "byte list"
  file_pos :: nat

definition read_fd :: "fd_state \<Rightarrow> nat \<Rightarrow> byte list \<times> fd_state" where
  "read_fd fd cnt =
     (let bytes = take cnt (drop (file_pos fd) (file_bytes fd))
      in (bytes, fd\<lparr>file_pos := file_pos fd + length bytes\<rparr>))"

text \<open>
  \<open>comux_header_read\<close>.  Each field is read with \<open>read_check\<close>; no byte at all is
  \<open>COMUX_PARSE_EOF\<close>, too few bytes is the error of the field.
\<close>

definition comux_header_read ::
  "comux_header \<Rightarrow> fd_state \<Rightarrow> comux_parse_result \<times> comux_header \<times> fd_state" where
  "comux_header_read header fd =
     (case read_fd fd COMUX_MAGIC_LEN of (bytes, fd) \<Rightarrow>
      let header = header\<lparr>magic := bytes @ drop (length bytes) (magic header)\<rparr> in
      if length bytes = 0 then (COMUX_PARSE_EOF, header, fd)
      else if length bytes < COMUX_MAGIC_LEN then (COMUX_PARSE_BAD_MAGIC, header, fd)
      else if magic header \<noteq> COMUX_MAGIC then (COMUX_PARSE_BAD_MAGIC, header, fd)
      else
      case read_fd fd 4 of (bytes, fd) \<Rightarrow>
      if length bytes = 0 then (COMUX_PARSE_EOF, header, fd)
      else if length bytes < 4 then (COMUX_PARSE_BAD_VERSION, header, fd)
      else
      let header = header\<lparr>version := bytes_to_u32 bytes\<rparr> in
      case read_fd fd 4 of (bytes, fd) \<Rightarrow>
      if length bytes = 0 then (COMUX_PARSE_EOF, header, fd)
      else if length bytes < 4 then (COMUX_PARSE_BAD_NUM_CONNS, header, fd)
      else
      let header = header\<lparr>num_conns := bytes_to_u32 bytes\<rparr> in
      case read_fd fd 4 of (bytes, fd) \<Rightarrow>
      if length bytes = 0 then (COMUX_PARSE_EOF, header, fd)
      else if length bytes < 4 then (COMUX_PARSE_BAD_NUM_CHUNKS, header, fd)
      else
      let header = header\<lparr>num_chunks := bytes_to_u32 bytes\<rparr> in
      (COMUX_PARSE_OK, header, fd))"

text \<open>\<open>comux_cinfo_read\<close>; it first records the position of the record in \<open>offset\<close>.\<close>

definition comux_cinfo_read ::
  "comux_cinfo \<Rightarrow> fd_state \<Rightarrow> comux_parse_result \<times> comux_cinfo \<times> fd_state" where
  "comux_cinfo_read cinfo fd =
     (let cinfo = cinfo\<lparr>offset := int (file_pos fd)\<rparr> in
      case read_fd fd 4 of (bytes, fd) \<Rightarrow>
      if length bytes = 0 then (COMUX_PARSE_EOF, cinfo, fd)
      else if length bytes < 4 then (COMUX_PARSE_BAD_CONN_ID, cinfo, fd)
      else
      let cinfo = cinfo\<lparr>id_conn := bytes_to_u32 bytes\<rparr> in
      case read_fd fd 8 of (bytes, fd) \<Rightarrow>
      if length bytes = 0 then (COMUX_PARSE_EOF, cinfo, fd)
      else if length bytes < 8 then (COMUX_PARSE_BAD_CONN_LEN, cinfo, fd)
      else
      let cinfo = cinfo\<lparr>len := bytes_to_u64 bytes\<rparr> in
      case read_fd fd 4 of (bytes, fd) \<Rightarrow>
      if length bytes = 0 then (COMUX_PARSE_EOF, cinfo, fd)
      else if length bytes < 4 then (COMUX_PARSE_BAD_CONN_SCHED, cinfo, fd)
      else
      let cinfo = cinfo\<lparr>sched := bytes_to_u32 bytes\<rparr> in
      case read_fd fd 4 of (bytes, fd) \<Rightarrow>
      if length bytes = 0 then (COMUX_PARSE_EOF, cinfo, fd)
      else if length bytes < 4 then (COMUX_PARSE_BAD_CONN_FLAGS, cinfo, fd)
      else
      let cinfo = cinfo\<lparr>flags := bytes_to_u32 bytes\<rparr> in
      (COMUX_PARSE_OK, cinfo, fd))"

text \<open>
  The loop of \<open>comux_cinfo_data_read\<close>: read at most \<open>buff_size\<close> bytes of what is
  missing up to \<open>cap\<close>, append them with the macro \<open>comux_cinfo_data_appendn\<close> (which
  also adds to \<open>len\<close>), until \<open>read\<close> returns nothing or \<open>cap\<close> bytes are there.
\<close>

function data_read_loop ::
  "nat \<Rightarrow> nat \<Rightarrow> comux_cinfo \<Rightarrow> fd_state \<Rightarrow> nat \<Rightarrow> comux_cinfo \<times> nat \<times> fd_state" where
  "data_read_loop cap buff_size cinfo fd total_rcount =
     (case read_fd fd (min (cap - total_rcount) buff_size) of (buff, fd) \<Rightarrow>
        let rcount = length buff in
        if rcount > 0 \<and> total_rcount < cap
        then data_read_loop cap buff_size
               (cinfo\<lparr>data := data cinfo @ buff, len := len cinfo + of_nat rcount\<rparr>) fd
               (total_rcount + rcount)
        else (cinfo, total_rcount, fd))"
  by pat_completeness auto
termination
proof (relation "measure (\<lambda>(cap, buff_size, cinfo, fd, total_rcount). cap - total_rcount)",
       goal_cases)
  case 1
  show ?case by simp
next
  case (2 cap buff_size cinfo fd total_rcount x y xa)
  then have "0 < xa" "total_rcount < cap" by simp_all
  then show ?case by simp
qed

declare data_read_loop.simps [simp del]

definition comux_cinfo_data_read ::
  "comux_cinfo \<Rightarrow> fd_state \<Rightarrow> comux_cinfo \<times> nat \<times> fd_state" where
  "comux_cinfo_data_read cinfo fd =
     (let cap = unat (if len cinfo > COMUX_CHUNK_DATA_MAXLEN then COMUX_CHUNK_DATA_MAXLEN
                      else len cinfo);
          cinfo = cinfo\<lparr>data := []\<rparr>;
          buff_size = (if cap > 2048 then 2048 else cap)
      in case data_read_loop cap buff_size cinfo fd 0 of (cinfo, total_rcount, fd) \<Rightarrow>
           (cinfo\<lparr>len := of_nat total_rcount\<rparr>, total_rcount, fd))"

lemma read_fd_bytes: "read_fd fd n = (b, fd') \<Longrightarrow> file_bytes fd' = file_bytes fd"
  by (auto simp: read_fd_def Let_def)

lemma read_fd_pos: "read_fd fd n = (b, fd') \<Longrightarrow> file_pos fd' = file_pos fd + length b"
  by (auto simp: read_fd_def Let_def)

lemma read_fd_length:
  "read_fd fd n = (b, fd') \<Longrightarrow> file_pos fd + length b \<le> length (file_bytes fd) \<or> b = []"
  by (auto simp: read_fd_def Let_def)

lemma comux_cinfo_read_ok:
  assumes "comux_cinfo_read c fd = (COMUX_PARSE_OK, c', fd')"
  shows "file_bytes fd' = file_bytes fd \<and> file_pos fd' = file_pos fd + 20 \<and>
         file_pos fd < length (file_bytes fd)"
  using assms
  by (auto simp: comux_cinfo_read_def Let_def read_fd_def split: if_splits)

lemma data_read_loop_fd:
  "data_read_loop cap bs c fd t = (c', n, fd') \<Longrightarrow>
     file_bytes fd' = file_bytes fd \<and> file_pos fd \<le> file_pos fd'"
proof (induction cap bs c fd t rule: data_read_loop.induct)
  case (1 cap buff_size cinfo fd total_rcount)
  obtain buff fd1 where r: "read_fd fd (min (cap - total_rcount) buff_size) = (buff, fd1)"
    by (cases "read_fd fd (min (cap - total_rcount) buff_size)")
  show ?case
  proof (cases "length buff > 0 \<and> total_rcount < cap")
    case True
    have "data_read_loop cap buff_size
            (cinfo\<lparr>data := data cinfo @ buff, len := len cinfo + of_nat (length buff)\<rparr>) fd1
            (total_rcount + length buff) = (c', n, fd')"
      using "1.prems" r True by (subst (asm) data_read_loop.simps) (simp add: Let_def)
    then have "file_bytes fd' = file_bytes fd1 \<and> file_pos fd1 \<le> file_pos fd'"
      using "1.IH" [OF r [symmetric] refl] True by simp
    then show ?thesis using read_fd_bytes [OF r] read_fd_pos [OF r] by simp
  next
    case False
    have "fd' = fd1"
      using "1.prems" r False by (subst (asm) data_read_loop.simps) (auto simp: Let_def)
    then show ?thesis using read_fd_bytes [OF r] read_fd_pos [OF r] by simp
  qed
qed

lemma comux_cinfo_data_read_fd:
  "comux_cinfo_data_read c fd = (c', n, fd') \<Longrightarrow>
     file_bytes fd' = file_bytes fd \<and> file_pos fd \<le> file_pos fd'"
  by (auto simp: comux_cinfo_data_read_def Let_def split: prod.splits dest: data_read_loop_fd)

text \<open>
  The loop \<open>while (!result)\<close> of \<open>comux_manifest_read\<close>.  It is not bounded by
  \<open>num_chunks\<close>: it ends at the first chunk that does not parse, and every chunk that
  parses takes 20 bytes of the file.
\<close>

function manifest_read_loop ::
  "fd_state \<Rightarrow> comux_parse_result \<Rightarrow> comux_cinfo list \<Rightarrow>
   comux_parse_result \<times> comux_cinfo list \<times> fd_state" where
  "manifest_read_loop fd result cinfo_list =
     (if result = COMUX_PARSE_OK then
        (case comux_cinfo_read comux_cinfo_init fd of (result, cinfo, fd) \<Rightarrow>
           if result \<noteq> COMUX_PARSE_OK then manifest_read_loop fd result cinfo_list
           else
             let expected_len = len cinfo in
             (case comux_cinfo_data_read cinfo fd of (cinfo, rcount, fd) \<Rightarrow>
                if rcount < unat expected_len
                then manifest_read_loop fd COMUX_PARSE_CONN_LEN_MISMATCH cinfo_list
                else manifest_read_loop fd result (cinfo_list @ [cinfo])))
      else (result, cinfo_list, fd))"
  by pat_completeness auto
termination
  by (relation "measure (\<lambda>(fd, result, cinfo_list).
          if result = COMUX_PARSE_OK then Suc (length (file_bytes fd) - file_pos fd) else 0)")
     (auto dest!: comux_cinfo_read_ok [OF sym] comux_cinfo_data_read_fd [OF sym])

declare manifest_read_loop.simps [simp del]

text \<open>\<open>comux_manifest_read\<close>: the end of the file between chunks is success.\<close>

definition comux_manifest_read ::
  "comux_manifest \<Rightarrow> fd_state \<Rightarrow> comux_parse_result \<times> comux_manifest \<times> fd_state" where
  "comux_manifest_read manifest fd =
     (case comux_header_read (manifest_header manifest) fd of (result, header, fd) \<Rightarrow>
        let manifest = manifest\<lparr>manifest_header := header\<rparr> in
        if result \<noteq> COMUX_PARSE_OK then (result, manifest, fd)
        else
          (case manifest_read_loop fd result (manifest_cinfo_list manifest) of
             (result, cinfo_list, fd) \<Rightarrow>
               (if result = COMUX_PARSE_EOF then COMUX_PARSE_OK else result,
                manifest\<lparr>manifest_cinfo_list := cinfo_list\<rparr>, fd)))"


section \<open>Validators of the mutator (mutator.c)\<close>

text \<open>\<open>#define MAX_CONNECTIONS 1 << 12\<close> and \<open>#define MAX_CHUNKS 1 << 13\<close>.\<close>

definition MAX_CONNECTIONS :: u32 where
  "MAX_CONNECTIONS = push_bit 12 1"

definition MAX_CHUNKS :: u32 where
  "MAX_CHUNKS = push_bit 13 1"

text \<open>
  \<open>__gurthang_mut_check_comux_header\<close>: an error message on failure, \<open>NULL\<close>
  (here \<open>None\<close>) on success.  The checks are in the order of the source.
\<close>

definition check_comux_header :: "comux_header \<Rightarrow> string option" where
  "check_comux_header header =
     (if num_conns header > MAX_CONNECTIONS then Some ''too many connections specified''
      else if num_chunks header > MAX_CHUNKS then Some ''too many chunks specified''
      else if num_conns header = 0
        then Some ''zero connections are specified by the comux header''
      else if num_chunks header = 0
        then Some ''zero chunks are specified by the comux header''
      else None)"

text \<open>\<open>__gurthang_mut_check_comux_cinfo\<close>.\<close>

definition check_comux_cinfo :: "comux_header \<Rightarrow> comux_cinfo \<Rightarrow> string option" where
  "check_comux_cinfo header cinfo =
     (if id_conn cinfo \<ge> num_conns header then Some ''out-of-bounds connection ID''
      else (let mask = NOT COMUX_CHUNK_FLAGS_ALL in
            if flags cinfo AND mask \<noteq> 0 then Some ''unsupported flag bits are enabled''
            else None))"

section \<open>The controller thread of the preload library (preload.c)\<close>

text \<open>
  \<open>struct chunk_thread_parameters\<close>: what the controller hands to a chunk thread.
  The field \<open>cinfo\<close> of the C struct is called \<open>param_cinfo\<close> here.
\<close>

record chunk_thread_params =
  param_cinfo :: comux_cinfo
  thread_id :: u32
  is_final_chunk :: bool

text \<open>
  The inner loop of \<open>__gurthang_lib_controller_main\<close> (\<open>dllist_iterate\<close> over the
  remaining chunks): \<open>next\<close> starts as the head of the list and is replaced by every
  later element whose \<open>sched\<close> is strictly lower.  \<open>n\<close> is the position of \<open>next\<close>
  in the list and \<open>i\<close> the position of the element under the iterator.
\<close>

fun scan_lowest :: "nat \<Rightarrow> comux_cinfo \<Rightarrow> nat \<Rightarrow> comux_cinfo list \<Rightarrow> nat" where
  "scan_lowest n nxt i [] = n"
| "scan_lowest n nxt i (cinfo # rest) =
     (if sched cinfo < sched nxt then scan_lowest i cinfo (Suc i) rest
      else scan_lowest n nxt (Suc i) rest)"

definition select_next :: "comux_cinfo list \<Rightarrow> nat" where
  "select_next cinfo_list = scan_lowest 0 (hd cinfo_list) 0 cinfo_list"

text \<open>\<open>dllist_remove\<close>: unlink the element at position \<open>n\<close>.\<close>

definition dllist_remove :: "'a list \<Rightarrow> nat \<Rightarrow> 'a list" where
  "dllist_remove xs n = take n xs @ drop (Suc n) xs"

text \<open>
  \<open>first_lowest L r\<close>: position \<open>r\<close> holds the first chunk of lowest \<open>sched\<close> in \<open>L\<close>.
\<close>

definition first_lowest :: "comux_cinfo list \<Rightarrow> nat \<Rightarrow> bool" where
  "first_lowest L r =
     (r < length L \<and> (\<forall>j. j < r \<longrightarrow> sched (L ! r) < sched (L ! j)) \<and>
      (\<forall>x\<in>set L. sched (L ! r) \<le> sched x))"

lemma scan_lowest_spec:
  assumes "n < length pre" "pre ! n = nxt"
    "\<forall>j. j < n \<longrightarrow> sched nxt < sched (pre ! j)" "\<forall>x\<in>set pre. sched nxt \<le> sched x"
  shows "first_lowest (pre @ cs) (scan_lowest n nxt (length pre) cs)"
  using assms
proof (induction cs arbitrary: n nxt pre)
  case Nil
  then show ?case by (auto simp: first_lowest_def)
next
  case (Cons c cs)
  show ?case
  proof (cases "sched c < sched nxt")
    case True
    have "first_lowest ((pre @ [c]) @ cs) (scan_lowest (length pre) c (length (pre @ [c])) cs)"
    proof (rule Cons.IH)
      show "length pre < length (pre @ [c])" by simp
      show "(pre @ [c]) ! length pre = c" by simp
      show "\<forall>j. j < length pre \<longrightarrow> sched c < sched ((pre @ [c]) ! j)"
      proof (intro allI impI)
        fix j assume "j < length pre"
        then have "sched nxt \<le> sched (pre ! j)" using Cons.prems(4) by simp
        then show "sched c < sched ((pre @ [c]) ! j)"
          using True \<open>j < length pre\<close> by (simp add: nth_append)
      qed
      show "\<forall>x\<in>set (pre @ [c]). sched c \<le> sched x"
        using True Cons.prems(4) by auto
    qed
    then show ?thesis using True by simp
  next
    case False
    have "first_lowest ((pre @ [c]) @ cs) (scan_lowest n nxt (length (pre @ [c])) cs)"
    proof (rule Cons.IH)
      show "n < length (pre @ [c])" using Cons.prems(1) by simp
      show "(pre @ [c]) ! n = nxt" using Cons.prems(1,2) by (simp add: nth_append)
      show "\<forall>j. j < n \<longrightarrow> sched nxt < sched ((pre @ [c]) ! j)"
        using Cons.prems(1,3) by (auto simp: nth_append)
      show "\<forall>x\<in>set (pre @ [c]). sched nxt \<le> sched x"
        using False Cons.prems(4) by auto
    qed
    then show ?thesis using False by simp
  qed
qed

lemma select_next_spec: "cs \<noteq> [] \<Longrightarrow> first_lowest cs (select_next cs)"
proof (cases cs)
  case Nil
  assume "cs \<noteq> []" with Nil show ?thesis by simp
next
  case (Cons c rest)
  have "first_lowest ([c] @ rest) (scan_lowest 0 c (length [c]) rest)"
    by (rule scan_lowest_spec) auto
  then show ?thesis using Cons by (simp add: select_next_def)
qed

lemma select_next_less: "cinfo_list \<noteq> [] \<Longrightarrow> select_next cinfo_list < length cinfo_list"
  using select_next_spec [of cinfo_list] by (simp add: first_lowest_def)

text \<open>
  The outer loop of \<open>__gurthang_lib_controller_main\<close> (\<open>while (manifest.cinfo_list.size
  > 0)\<close>): select, unlink, decrement the per-connection counter in \<open>ccheck_buff\<close> (an
  array of \<open>uint8_t\<close>, one entry per connection) to learn whether this is the last chunk
  of its connection, and spawn a chunk thread with these parameters.  The result is
  the sequence of spawned threads.
\<close>

function controller_dispatch ::
  "byte list \<Rightarrow> u32 \<Rightarrow> comux_cinfo list \<Rightarrow> chunk_thread_params list" where
  "controller_dispatch ccheck_buff idx cinfo_list =
     (if cinfo_list = [] then []
      else (let n = select_next cinfo_list;
                nxt = cinfo_list ! n;
                c = unat (id_conn nxt);
                ccheck_buff' = ccheck_buff [c := ccheck_buff ! c - 1];
                is_final_conn_chunk = (ccheck_buff' ! c = 0)
            in \<lparr>param_cinfo = nxt, thread_id = idx, is_final_chunk = is_final_conn_chunk\<rparr> #
               controller_dispatch ccheck_buff' (idx + 1) (dllist_remove cinfo_list n)))"
  by pat_completeness auto
termination
proof (relation "measure (\<lambda>(b, i, cs). length cs)")
  show "wf (measure (\<lambda>(b :: byte list, i :: u32, cs :: comux_cinfo list). length cs))"
    by simp
next
  fix ccheck_buff :: "byte list" and idx :: u32 and cinfo_list :: "comux_cinfo list"
    and x xa xb and xc :: "byte list"
  assume "cinfo_list \<noteq> []" "x = select_next cinfo_list"
  then have "x < length cinfo_list" by (simp add: select_next_less)
  then show "((xc, idx + 1, dllist_remove cinfo_list x), ccheck_buff, idx, cinfo_list)
      \<in> measure (\<lambda>(b, i, cs). length cs)"
    by (simp add: dllist_remove_def)
qed

declare controller_dispatch.simps [simp del]

section \<open>Replay: the chunk threads and the controller (preload.c)\<close>

text \<open>
  \<open>fatality\<close> and \<open>fatality_errno\<close> print a message and call \<open>exit (FATAL_EXIT_CODE)\<close>
  (or \<open>_exit\<close>); \<open>controller_exit\<close> calls \<open>exit (EXIT_SUCCESS)\<close>.  \<open>CTABLE_MAXLEN\<close>
  is \<open>1 << 12\<close> and \<open>CHUNKS_MAX\<close> is \<open>1 << 13\<close>.
\<close>

definition FATAL_EXIT_CODE :: int where
  "FATAL_EXIT_CODE = 24060"

definition EXIT_SUCCESS :: int where
  "EXIT_SUCCESS = 0"

definition CTABLE_MAXLEN :: u32 where
  "CTABLE_MAXLEN = push_bit 12 1"

definition CHUNKS_MAX :: u32 where
  "CHUNKS_MAX = push_bit 13 1"

text \<open>\<open>enum connection_table_entry_status\<close>.\<close>

datatype ctable_status = CONN_STATUS_DEAD | CONN_STATUS_ALIVE | CONN_STATUS_CLOSED_REMOTE

text \<open>
  What the target server and the operating system do is given from outside, one
  script for each chunk thread: whether \<open>getsockname\<close>, \<open>socket\<close> and \<open>connect\<close>
  succeed; what the \<open>k\<close>-th call of \<open>send\<close> returns (the number of bytes it accepts,
  never more than asked for, or \<open>-1\<close> with an \<open>errno\<close>); whether \<open>shutdown\<close> succeeds;
  and what the calls of \<open>recv\<close> return, one after the other (the bytes received,
  none when the peer has closed, or \<open>-1\<close> with an \<open>errno\<close>), after which \<open>recv\<close>
  blocks for ever.  Writes to the log and to standard output succeed.
\<close>

datatype errno = EPIPE | ECONNRESET | EOTHER

datatype send_result = Sent nat | SendError errno

datatype recv_result = Received "byte list" | RecvError errno

record thread_env =
  connect_ok :: bool
  send_script :: "nat \<Rightarrow> send_result"
  shutdown_ok :: bool
  recv_script :: "recv_result list"

text \<open>
  The state the threads share: the connection table (the status of each connection
  id; a connection id has at most one socket in the life of the process), and, on the
  side of the target, the bytes that have arrived on each connection and whether its
  write end has been shut down.
\<close>

record world =
  ctable :: "nat \<Rightarrow> ctable_status"
  wire :: "nat \<Rightarrow> byte list"
  shut_wr :: "nat \<Rightarrow> bool"

text \<open>
  How a call ends: it returns, the thread ends (\<open>pthread_exit\<close>), the process ends
  (\<open>exit\<close> with a code), or it blocks for ever.
\<close>

datatype 'a outcome =
    Returns 'a world
  | ThreadExit world
  | ProcessExit int world
  | Blocks world

definition exit_code :: "'a outcome \<Rightarrow> int option" where
  "exit_code r = (case r of ProcessExit code w \<Rightarrow> Some code | _ \<Rightarrow> None)"

definition final_world :: "'a outcome \<Rightarrow> world" where
  "final_world r =
     (case r of Returns u w \<Rightarrow> w | ThreadExit w \<Rightarrow> w | ProcessExit code w \<Rightarrow> w
      | Blocks w \<Rightarrow> w)"

text \<open>\<open>__gurthang_lib_chunk_get_connection\<close>.\<close>

definition chunk_get_connection :: "thread_env \<Rightarrow> u32 \<Rightarrow> world \<Rightarrow> unit outcome" where
  "chunk_get_connection env cid w =
     (case ctable w (unat cid) of
        CONN_STATUS_ALIVE \<Rightarrow> Returns () w
      | CONN_STATUS_CLOSED_REMOTE \<Rightarrow> ThreadExit w
      | CONN_STATUS_DEAD \<Rightarrow>
          if connect_ok env
          then Returns () (w\<lparr>ctable := (ctable w) (unat cid := CONN_STATUS_ALIVE)\<rparr>)
          else ProcessExit FATAL_EXIT_CODE w)"

text \<open>
  \<open>__gurthang_lib_chunk_load_data\<close>: seek standard input to \<open>offset + 20\<close> (a negative
  position is the failure of \<open>lseek\<close>, which is fatal) and read the payload with
  \<open>comux_cinfo_data_read\<close>.  \<open>Inl\<close> is the exit code of a fatal error.
\<close>

definition chunk_load_data :: "comux_cinfo \<Rightarrow> fd_state \<Rightarrow> int + comux_cinfo \<times> nat" where
  "chunk_load_data cinfo stdin =
     (if offset cinfo + 20 < 0 then Inl FATAL_EXIT_CODE
      else case comux_cinfo_data_read cinfo (stdin\<lparr>file_pos := nat (offset cinfo + 20)\<rparr>) of
             (cinfo, rcount, stdin) \<Rightarrow> Inr (cinfo, rcount))"

text \<open>
  The loop of \<open>__gurthang_lib_chunk_send_data\<close>:
  \<open>while ((wcount = send (sockfd, dptr + wcount, MIN (cinfo->len - total_wcount,
  interval_size), MSG_NOSIGNAL)) > 0) total_wcount += wcount;\<close>.
  The bytes handed to \<open>send\<close> start at \<open>dptr + wcount\<close>, where \<open>wcount\<close> is what the
  previous call returned.  \<open>k\<close> counts the calls and \<open>sent\<close> collects the bytes the
  socket accepted.  The result is the last value of \<open>send\<close>, \<open>total_wcount\<close> and
  \<open>sent\<close>.
\<close>

function send_loop ::
  "(nat \<Rightarrow> send_result) \<Rightarrow> comux_cinfo \<Rightarrow> nat \<Rightarrow> nat \<Rightarrow> nat \<Rightarrow> nat \<Rightarrow> byte list \<Rightarrow>
   send_result \<times> nat \<times> byte list" where
  "send_loop script cinfo interval_size k wcount total_wcount sent =
     (let n = min (unat (len cinfo) - total_wcount) interval_size in
      case script k of
        SendError e \<Rightarrow> (SendError e, total_wcount, sent)
      | Sent a \<Rightarrow>
          let w = min a n in
          if w > 0
          then send_loop script cinfo interval_size (Suc k) w (total_wcount + w)
                 (sent @ take w (drop wcount (data cinfo)))
          else (Sent 0, total_wcount, sent))"
  by pat_completeness auto
termination
proof (relation "measure (\<lambda>(script, cinfo, interval_size, k, wcount, total_wcount, sent).
          unat (len cinfo) - total_wcount)", goal_cases)
  case 1
  show ?case by simp
next
  case (2 script cinfo interval_size k wcount total_wcount sent x x2 xa)
  then have "0 < xa" "xa \<le> unat (len cinfo) - total_wcount" by simp_all
  then show ?case by simp
qed

declare send_loop.simps [simp del]

text \<open>
  \<open>__gurthang_lib_chunk_send_data\<close>.  \<open>chunk_thread_write_buffsize\<close> is the global
  slice size (2048 unless \<open>GURTHANG_LIB_SEND_BUFFSIZE\<close> sets it).
\<close>

definition chunk_send_data ::
  "nat \<Rightarrow> thread_env \<Rightarrow> comux_cinfo \<Rightarrow> bool \<Rightarrow> world \<Rightarrow> nat outcome" where
  "chunk_send_data chunk_thread_write_buffsize env cinfo chunk_thread_is_final w =
     (let interval_size = (if unat (len cinfo) > chunk_thread_write_buffsize
                           then chunk_thread_write_buffsize else unat (len cinfo));
          c = unat (id_conn cinfo)
      in case send_loop (send_script env) cinfo interval_size 0 0 0 [] of
           (result, total_wcount, sent) \<Rightarrow>
             let w = w\<lparr>wire := (wire w) (c := wire w c @ sent)\<rparr> in
             (case result of
                SendError e \<Rightarrow>
                  if e = EPIPE \<or> e = ECONNRESET
                  then Returns 0 (w\<lparr>ctable := (ctable w) (c := CONN_STATUS_CLOSED_REMOTE)\<rparr>)
                  else ProcessExit FATAL_EXIT_CODE w
              | Sent a \<Rightarrow>
                  if chunk_thread_is_final \<and> flags cinfo AND COMUX_CHUNK_FLAGS_NO_SHUTDOWN = 0
                  then (if shutdown_ok env
                        then Returns total_wcount (w\<lparr>shut_wr := (shut_wr w) (c := True)\<rparr>)
                        else ProcessExit FATAL_EXIT_CODE w)
                  else Returns total_wcount w))"

text \<open>
  The loop of \<open>__gurthang_lib_chunk_recv_data\<close> and how it ends: \<open>recv\<close> returned 0,
  it returned \<open>-1\<close>, or it never returned.
\<close>

datatype recv_end = RecvZero | RecvFailed errno | RecvBlocked

fun recv_loop :: "recv_result list \<Rightarrow> nat \<Rightarrow> recv_end \<times> nat" where
  "recv_loop [] total_rcount = (RecvBlocked, total_rcount)"
| "recv_loop (Received bytes # script) total_rcount =
     (if length bytes > 0 then recv_loop script (total_rcount + length bytes)
      else (RecvZero, total_rcount))"
| "recv_loop (RecvError e # script) total_rcount = (RecvFailed e, total_rcount)"

definition chunk_recv_data :: "thread_env \<Rightarrow> comux_cinfo \<Rightarrow> world \<Rightarrow> nat outcome" where
  "chunk_recv_data env cinfo w =
     (let c = unat (id_conn cinfo);
          closed = w\<lparr>ctable := (ctable w) (c := CONN_STATUS_CLOSED_REMOTE)\<rparr>
      in case recv_loop (recv_script env) 0 of
           (RecvBlocked, total_rcount) \<Rightarrow> Blocks w
         | (RecvZero, total_rcount) \<Rightarrow>
             if total_rcount = 0 then Returns total_rcount closed else Returns total_rcount w
         | (RecvFailed e, total_rcount) \<Rightarrow>
             if e = ECONNRESET then Returns total_rcount closed
             else ProcessExit FATAL_EXIT_CODE w)"

text \<open>\<open>__gurthang_lib_chunk_main\<close>, the body of a chunk thread.\<close>

definition chunk_main ::
  "nat \<Rightarrow> thread_env \<Rightarrow> fd_state \<Rightarrow> chunk_thread_params \<Rightarrow> world \<Rightarrow> unit outcome" where
  "chunk_main chunk_thread_write_buffsize env stdin params w =
     (let cinfo = param_cinfo params;
          chunk_thread_is_final = is_final_chunk params
      in case chunk_get_connection env (id_conn cinfo) w of
           ThreadExit w \<Rightarrow> ThreadExit w
         | ProcessExit code w \<Rightarrow> ProcessExit code w
         | Blocks w \<Rightarrow> Blocks w
         | Returns u w \<Rightarrow>
            (case chunk_load_data cinfo stdin of
               Inl code \<Rightarrow> ProcessExit code w
             | Inr (cinfo, data_length) \<Rightarrow>
                 if data_length = 0 then ProcessExit FATAL_EXIT_CODE w
                 else
                   (case chunk_send_data chunk_thread_write_buffsize env cinfo
                           chunk_thread_is_final w of
                      ThreadExit w \<Rightarrow> ThreadExit w
                    | ProcessExit code w \<Rightarrow> ProcessExit code w
                    | Blocks w \<Rightarrow> Blocks w
                    | Returns n w \<Rightarrow>
                        if n = 0 then Returns () w
                        else if flags cinfo AND COMUX_CHUNK_FLAGS_AWAIT_RESPONSE \<noteq> 0
                        then (case chunk_recv_data env cinfo w of
                                Returns n w \<Rightarrow> Returns () w
                              | ThreadExit w \<Rightarrow> ThreadExit w
                              | ProcessExit code w \<Rightarrow> ProcessExit code w
                              | Blocks w \<Rightarrow> Blocks w)
                        else Returns () w)))"

text \<open>
  The controller in its default mode (\<open>wait_for_chunk_threads\<close> set): each thread is
  created and joined before the next one is selected, so the threads run one after
  the other, in the order of \<open>controller_dispatch\<close>.  The mode \<open>NO_WAIT\<close>, in which the
  threads run concurrently, is not modelled.
\<close>

fun run_chunk_threads ::
  "nat \<Rightarrow> (nat \<Rightarrow> thread_env) \<Rightarrow> fd_state \<Rightarrow> chunk_thread_params list \<Rightarrow> world \<Rightarrow>
   unit outcome" where
  "run_chunk_threads bs envs stdin [] w = Returns () w"
| "run_chunk_threads bs envs stdin (params # rest) w =
     (case chunk_main bs (envs (unat (thread_id params))) stdin params w of
        Returns u w \<Rightarrow> run_chunk_threads bs envs stdin rest w
      | ThreadExit w \<Rightarrow> run_chunk_threads bs envs stdin rest w
      | ProcessExit code w \<Rightarrow> ProcessExit code w
      | Blocks w \<Rightarrow> Blocks w)"

text \<open>
  The first loop of \<open>__gurthang_lib_controller_main\<close>: read \<open>num_chunks\<close> chunk
  headers, check the connection id, count the chunk in \<open>ccheck_buff\<close>, and seek past
  the payload (\<open>lseek\<close> by \<open>len\<close> read as an \<open>off_t\<close>; it fails on a position that is
  negative or not an \<open>off_t\<close>).
\<close>

fun read_chunk_headers ::
  "nat \<Rightarrow> comux_header \<Rightarrow> fd_state \<Rightarrow> byte list \<Rightarrow> comux_cinfo list \<Rightarrow>
   int + fd_state \<times> byte list \<times> comux_cinfo list" where
  "read_chunk_headers 0 header stdin ccheck_buff cinfo_list =
     Inr (stdin, ccheck_buff, cinfo_list)"
| "read_chunk_headers (Suc n) header stdin ccheck_buff cinfo_list =
     (case comux_cinfo_read comux_cinfo_init stdin of (res, current, stdin) \<Rightarrow>
        if res \<noteq> COMUX_PARSE_OK then Inl FATAL_EXIT_CODE
        else if id_conn current \<ge> num_conns header then Inl FATAL_EXIT_CODE
        else
          let c = unat (id_conn current);
              ccheck_buff = ccheck_buff [c := ccheck_buff ! c + 1];
              cinfo_list = cinfo_list @ [current];
              new_pos = int (file_pos stdin) + sint (len current)
          in if new_pos < 0 \<or> 2 ^ 63 \<le> new_pos then Inl FATAL_EXIT_CODE
             else read_chunk_headers n header (stdin\<lparr>file_pos := nat new_pos\<rparr>)
                    ccheck_buff cinfo_list)"

text \<open>
  \<open>__gurthang_lib_controller_main\<close> up to the dispatch loop: the header, the limits,
  the chunk headers, and the check that every connection has a chunk.
\<close>

definition controller_parse :: "fd_state \<Rightarrow> int + fd_state \<times> byte list \<times> comux_cinfo list" where
  "controller_parse stdin =
     (case comux_header_read comux_header_init stdin of (res, header, stdin) \<Rightarrow>
        if res \<noteq> COMUX_PARSE_OK then Inl FATAL_EXIT_CODE
        else if num_conns header > CTABLE_MAXLEN then Inl FATAL_EXIT_CODE
        else if num_chunks header > CHUNKS_MAX then Inl FATAL_EXIT_CODE
        else
          (case read_chunk_headers (unat (num_chunks header)) header stdin
                  (replicate (unat (num_conns header)) 0) [] of
             Inl code \<Rightarrow> Inl code
           | Inr (stdin, ccheck_buff, cinfo_list) \<Rightarrow>
               if list_ex (\<lambda>i. ccheck_buff ! i = 0) [0..<unat (num_conns header)]
               then Inl FATAL_EXIT_CODE
               else Inr (stdin, ccheck_buff, cinfo_list)))"

definition initial_world :: world where
  "initial_world =
     \<lparr>ctable = (\<lambda>i. CONN_STATUS_DEAD), wire = (\<lambda>i. []), shut_wr = (\<lambda>i. False)\<rparr>"

text \<open>
  \<open>__gurthang_lib_controller_main\<close>: parse, run the chunk threads in dispatch order,
  then \<open>controller_exit\<close>.
\<close>

definition controller_main ::
  "nat \<Rightarrow> (nat \<Rightarrow> thread_env) \<Rightarrow> fd_state \<Rightarrow> unit outcome" where
  "controller_main chunk_thread_write_buffsize envs stdin =
     (case controller_parse stdin of
        Inl code \<Rightarrow> ProcessExit code initial_world
      | Inr (stdin, ccheck_buff, cinfo_list) \<Rightarrow>
          (case run_chunk_threads chunk_thread_write_buffsize envs stdin
                  (controller_dispatch ccheck_buff 0 cinfo_list) initial_world of
             Returns u w \<Rightarrow> ProcessExit EXIT_SUCCESS w
           | ThreadExit w \<Rightarrow> ProcessExit EXIT_SUCCESS w
           | ProcessExit code w \<Rightarrow> ProcessExit code w
           | Blocks w \<Rightarrow> Blocks w))"

text \<open>
  A chunk whose payload loads as no bytes: its declared length is 0, or the file has
  no byte at the offset of its payload.
\<close>

definition zero_payload :: "comux_cinfo \<Rightarrow> fd_state \<Rightarrow> bool" where
  "zero_payload cinfo stdin =
     (len cinfo = 0 \<or> int (length (file_bytes stdin)) \<le> offset cinfo + 20)"

section \<open>Single-precision arithmetic\<close>

text \<open>
  A C \<open>float\<close> is an IEEE 754 binary32 number.  Its finite values are rationals
  \<open>m * 2^(e - 23)\<close> with an integer \<open>m\<close> of at most 24 bits.  An operation returns the
  exact result rounded to the nearest such value, to the one with the even \<open>m\<close> on
  a tie.
\<close>

datatype float32 = Finite rat | PInf | NInf | NaN

text \<open>The nearest integer, the even one on a tie.\<close>

definition rne :: "rat \<Rightarrow> int" where
  "rne x =
     (let f = \<lfloor>x\<rfloor>; r = x - of_int f
      in if r < 1 / 2 then f else if 1 / 2 < r then f + 1 else if even f then f else f + 1)"

text \<open>
  The binary exponent of a positive rational: \<open>exponent x = e\<close> when
  \<open>2^e \<le> x < 2^(e + 1)\<close>.
\<close>

function log2_ge1 :: "rat \<Rightarrow> nat" where
  "log2_ge1 x = (if x < 2 then 0 else Suc (log2_ge1 (x / 2)))"
  by pat_completeness auto
termination
proof (relation "measure (\<lambda>x. nat \<lfloor>x\<rfloor>)", goal_cases)
  case 1
  show ?case by simp
next
  case (2 x)
  then have "x / 2 \<le> x - 1" by simp
  then have "\<lfloor>x / 2\<rfloor> \<le> \<lfloor>x - 1\<rfloor>" by (rule floor_mono)
  moreover have "1 \<le> \<lfloor>x\<rfloor>" using 2 by simp
  ultimately show ?case by simp
qed

function log2_lt1 :: "rat \<Rightarrow> nat" where
  "log2_lt1 x = (if x \<le> 0 \<or> 1 \<le> x then 0 else Suc (log2_lt1 (x * 2)))"
  by pat_completeness auto
termination
proof (relation "measure (\<lambda>x. nat \<lceil>1 / x\<rceil>)", goal_cases)
  case 1
  show ?case by simp
next
  case (2 x)
  then have x: "0 < x" "x < 1" by simp_all
  then have "1 < 1 / x" by simp
  then have c: "2 \<le> \<lceil>1 / x\<rceil>" by linarith
  have "1 / (x * 2) \<le> of_int \<lceil>1 / x\<rceil> / 2"
    using x le_of_int_ceiling [of "1 / x"] by (simp add: field_simps)
  also have "\<dots> \<le> of_int (\<lceil>1 / x\<rceil> - 1)"
    using c by simp
  finally have "1 / (x * 2) \<le> of_int (\<lceil>1 / x\<rceil> - 1)" .
  then have "\<lceil>1 / (x * 2)\<rceil> \<le> \<lceil>1 / x\<rceil> - 1" by (rule ceiling_le)
  then have "nat \<lceil>1 / (x * 2)\<rceil> < nat \<lceil>1 / x\<rceil>" using c by linarith
  then show ?case by simp
qed

declare log2_ge1.simps [simp del] log2_lt1.simps [simp del]

definition exponent :: "rat \<Rightarrow> int" where
  "exponent x = (if 1 \<le> x then int (log2_ge1 x) else - int (log2_lt1 x))"

text \<open>
  Rounding to a binary format with a significand of \<open>p\<close> bits: the multiple of
  \<open>2^(e - (p - 1))\<close> nearest to \<open>x\<close>, where \<open>e\<close> is the exponent of \<open>x\<close>.  binary32 has
  24 bits and binary64 has 53.  This is the rounding of the values in the range of
  the normal numbers (for binary32, \<open>2^-126 \<le> |x| < 2^128\<close>), which holds the integers
  that fit a C \<open>int\<close> and the quotients of two of them.
\<close>

definition round_binary :: "nat \<Rightarrow> rat \<Rightarrow> rat" where
  "round_binary p x =
     (if x = 0 then 0
      else let ulp = 2 powi (exponent \<bar>x\<bar> - (int p - 1)) in of_int (rne (x / ulp)) * ulp)"

definition round32 :: "rat \<Rightarrow> rat" where
  "round32 x = round_binary 24 x"

definition round64 :: "rat \<Rightarrow> rat" where
  "round64 x = round_binary 53 x"

text \<open>
  The conversion \<open>(float) n\<close> of an \<open>int\<close>, and the division of two finite floats: by
  zero it gives an infinity with the sign of the dividend, or a NaN for \<open>0 / 0\<close>.
\<close>

definition float_of_int :: "int \<Rightarrow> rat" where
  "float_of_int n = round32 (of_int n)"

definition float_div :: "rat \<Rightarrow> rat \<Rightarrow> float32" where
  "float_div a b =
     (if b = 0 then (if a = 0 then NaN else if 0 < a then PInf else NInf)
      else Finite (round32 (a / b)))"

text \<open>The comparisons \<open><\<close> and \<open><=\<close>: false when an operand is a NaN.\<close>

fun float_less :: "float32 \<Rightarrow> float32 \<Rightarrow> bool" where
  "float_less (Finite a) (Finite b) = (a < b)"
| "float_less NaN y = False"
| "float_less x NaN = False"
| "float_less x NInf = False"
| "float_less PInf y = False"
| "float_less NInf y = True"
| "float_less x PInf = True"

fun float_le :: "float32 \<Rightarrow> float32 \<Rightarrow> bool" where
  "float_le (Finite a) (Finite b) = (a \<le> b)"
| "float_le NaN y = False"
| "float_le x NaN = False"
| "float_le NInf y = True"
| "float_le x PInf = True"
| "float_le x NInf = False"
| "float_le PInf y = False"

section \<open>The trimmer's feedback step (mutator.c)\<close>

text \<open>
  The trimming fields of \<open>struct gurthang_mutator\<close>.  The C \<open>int\<close> counters are
  \<open>int\<close>: they count trimming steps, at most the length of one payload, and stay in
  the range of a C \<open>int\<close>.
\<close>

record gurthang_mut =
  trim_cinfo :: comux_cinfo
  trim_cinfo_old :: comux_cinfo
  trim_steps :: int
  trim_count :: int
  trim_succeeded :: byte
  trim_success_count :: int

text \<open>
  \<open>afl_custom_post_trim\<close>: the updated mutator and the returned step index.  On a
  failed step the chunk goes back to the saved one (\<open>len\<close> and payload).  The
  quotients \<open>trim_progress\<close> and \<open>ratio\<close> are divisions of floats; \<open>0.25\<close> is a
  \<open>double\<close> constant, with which the float \<open>trim_progress\<close> is compared as it is; the
  float \<open>ratio_threshold\<close> is the \<open>double\<close> constant \<open>0.1\<close> converted to \<open>float\<close>.
\<close>

definition afl_custom_post_trim :: "gurthang_mut \<Rightarrow> byte \<Rightarrow> gurthang_mut \<times> int" where
  "afl_custom_post_trim mut success =
     (let mut = (if success = 0
                 then mut\<lparr>trim_cinfo := (trim_cinfo mut)
                            \<lparr>len := len (trim_cinfo_old mut), data := data (trim_cinfo_old mut)\<rparr>\<rparr>
                 else mut);
          mut = mut\<lparr>trim_count := trim_count mut + 1\<rparr>;
          mut = mut\<lparr>trim_succeeded := success\<rparr>;
          mut = mut\<lparr>trim_success_count :=
                       trim_success_count mut + (if success \<noteq> 0 then 1 else 0)\<rparr>;
          trim_progress = float_div (float_of_int (trim_count mut))
                            (float_of_int (trim_steps mut));
          check_success = (trim_count mut \<ge> 100 \<or>
                           float_le (Finite (round64 (1 / 4))) trim_progress);
          ratio = float_div (float_of_int (trim_success_count mut))
                    (float_of_int (trim_count mut));
          ratio_threshold = Finite (round32 (round64 (1 / 10)))
      in if check_success \<and> float_less ratio ratio_threshold then (mut, trim_steps mut)
         else (mut, trim_count mut))"

section \<open>The dictionary of the mutator (dict.c)\<close>

text \<open>
  \<open>struct dict_entry\<close>: the string (its bytes up to the terminating zero) and the
  length recorded with it.  \<open>struct dict\<close> is an array of \<open>DICT_MAXLEN\<close> entries and the
  number \<open>size\<close> of those in use; the model keeps the entries in use as a list.
\<close>

record dict_entry =
  str :: "byte list"
  len_entry :: nat

type_synonym dict = "dict_entry list"

definition DICT_ENTRY_MAXLEN :: nat where
  "DICT_ENTRY_MAXLEN = 128"

definition DICT_MAXLEN :: nat where
  "DICT_MAXLEN = 2048"

text \<open>
  A C string is modelled by its bytes before the first zero byte.  \<open>strcmp\<close> compares
  two strings byte by byte, as unsigned characters; only the sign of its result is
  specified.
\<close>

definition cstring :: "byte list \<Rightarrow> byte list" where
  "cstring buf = takeWhile (\<lambda>b. b \<noteq> 0) buf"

fun strcmp :: "byte list \<Rightarrow> byte list \<Rightarrow> int" where
  "strcmp [] [] = 0"
| "strcmp [] (b # bs) = - 1"
| "strcmp (a # as) [] = 1"
| "strcmp (a # as) (b # bs) =
     (if a = b then strcmp as bs else if a < b then - 1 else 1)"

text \<open>
  \<open>dict_entry_init\<close>: refuse an empty or too long string; otherwise copy at most
  \<open>str_len\<close> bytes of the string (\<open>snprintf\<close> with a buffer of \<open>str_len + 1\<close> bytes) and
  record \<open>str_len\<close>.
\<close>

definition dict_entry_init :: "byte list \<Rightarrow> nat \<Rightarrow> dict_entry option" where
  "dict_entry_init s str_len =
     (if str_len = 0 \<or> str_len > DICT_ENTRY_MAXLEN then None
      else Some \<lparr>str = take str_len s, len_entry = str_len\<rparr>)"

definition dict_entry_cmp :: "dict_entry \<Rightarrow> dict_entry \<Rightarrow> int" where
  "dict_entry_cmp de1 de2 = strcmp (str de1) (str de2)"

text \<open>
  \<open>dict_sort\<close> calls \<open>qsort\<close> with \<open>dict_entry_cmp\<close>.  \<open>qsort\<close> returns the array in
  ascending order of the comparison and leaves the order of equal elements open; the
  model sorts by insertion.
\<close>

fun qsort_insert :: "dict_entry \<Rightarrow> dict_entry list \<Rightarrow> dict_entry list" where
  "qsort_insert e [] = [e]"
| "qsort_insert e (x # xs) =
     (if dict_entry_cmp e x \<le> 0 then e # x # xs else x # qsort_insert e xs)"

definition dict_sort :: "dict \<Rightarrow> dict" where
  "dict_sort dict = foldr qsort_insert dict []"

text \<open>
  \<open>dict_search\<close>: binary search with \<open>left\<close>, \<open>right\<close> and \<open>mid\<close> of type \<open>ssize_t\<close>.
  The result is the index found, or \<open>-1\<close>.
\<close>

function dict_search_loop :: "dict \<Rightarrow> byte list \<Rightarrow> int \<Rightarrow> int \<Rightarrow> int" where
  "dict_search_loop dict word left right =
     (if left \<le> right then
        let mid = (left + right) div 2;
            comparison = dict_entry_cmp \<lparr>str = word, len_entry = length word\<rparr>
                           (dict ! nat mid)
        in if comparison < 0 then dict_search_loop dict word left (mid - 1)
           else if comparison > 0 then dict_search_loop dict word (mid + 1) right
           else mid
      else - 1)"
  by pat_completeness auto
termination
  by (relation "measure (\<lambda>(dict, word, left, right). nat (right - left + 1))") auto

declare dict_search_loop.simps [simp del]

definition dict_search :: "dict \<Rightarrow> byte list \<Rightarrow> dict_entry option" where
  "dict_search dict word =
     (let idx = dict_search_loop dict word 0 (int (length dict) - 1)
      in if idx < 0 then None else Some (dict ! nat idx))"

text \<open>
  \<open>dict_add\<close>.  The entry is written at \<open>entries[size]\<close>; nothing compares \<open>size\<close> with
  \<open>DICT_MAXLEN\<close>, so with a full array the write of \<open>dict_entry_init\<close> lands behind
  the array, which C gives no meaning: the model reports it as \<open>AddOutOfBounds\<close>.
\<close>

datatype add_result = AddOk dict | AddFailed | AddOutOfBounds

definition dict_add :: "dict \<Rightarrow> byte list \<Rightarrow> nat \<Rightarrow> add_result" where
  "dict_add dict s str_len =
     (if dict_search dict s \<noteq> None then AddFailed
      else case dict_entry_init s str_len of
             None \<Rightarrow> AddFailed
           | Some de \<Rightarrow>
               if length dict \<ge> DICT_MAXLEN then AddOutOfBounds
               else AddOk (dict_sort (dict @ [de])))"

text \<open>
  \<open>getline\<close> on what is left of the file: the next line with its newline (the last
  line may have none) and the rest of the file, or nothing at the end of the file.
\<close>

fun getline :: "byte list \<Rightarrow> (byte list \<times> byte list) option" where
  "getline [] = None"
| "getline (b # fp) =
     (if b = 0x0a then Some ([b], fp)
      else case getline fp of
             None \<Rightarrow> Some ([b], [])
           | Some (line, rest) \<Rightarrow> Some (b # line, rest))"

lemma getline_length:
  "getline fp = Some (line, rest) \<Longrightarrow> length rest < length fp \<and> line \<noteq> []"
  by (induction fp arbitrary: line rest) (auto split: if_splits option.splits)

text \<open>
  \<open>dict_from_file\<close>: the file (nothing when it cannot be opened), read line by line;
  the last byte of each line is overwritten by a zero and the line is added with the
  length \<open>rcount - 1\<close>.  The result is the dictionary, \<open>NULL\<close>, or the write behind the
  array.
\<close>

datatype dict_result = Loaded dict | Null | OutOfBounds

function dict_read_lines :: "byte list \<Rightarrow> dict \<Rightarrow> dict_result" where
  "dict_read_lines fp dict =
     (case getline fp of
        None \<Rightarrow> Loaded dict
      | Some (line, fp) \<Rightarrow>
          let rcount = length line;
              line = line [rcount - 1 := 0]
          in case dict_add dict (cstring line) (rcount - 1) of
               AddFailed \<Rightarrow> Null
             | AddOutOfBounds \<Rightarrow> OutOfBounds
             | AddOk dict \<Rightarrow> dict_read_lines fp dict)"
  by pat_completeness auto
termination
  by (relation "measure (\<lambda>(fp, dict). length fp)") (auto dest: getline_length)

declare dict_read_lines.simps [simp del]

definition dict_from_file :: "byte list option \<Rightarrow> dict_result" where
  "dict_from_file file =
     (case file of None \<Rightarrow> Null | Some fp \<Rightarrow> dict_read_lines fp [])"

text \<open>The entries of a dictionary are in strictly ascending order of \<open>strcmp\<close>.\<close>

definition sorted_dict :: "dict \<Rightarrow> bool" where
  "sorted_dict dict = sorted_wrt (\<lambda>a b. strcmp (str a) (str b) < 0) dict"

text \<open>
  An entry as \<open>dict_entry_init\<close> leaves it: a recorded length between 1 and
  \<open>DICT_ENTRY_MAXLEN\<close> that bounds the length of the string.
\<close>

definition entry_ok :: "dict_entry \<Rightarrow> bool" where
  "entry_ok e = (0 < len_entry e \<and> len_entry e \<le> DICT_ENTRY_MAXLEN \<and>
                 length (str e) \<le> len_entry e)"

section \<open>The fuzz operation of the mutator (mutator.c)\<close>

text \<open>
  \<open>__gurthang_mut_make_new_comux\<close> is not implemented in the source: it sets
  \<open>*outbuff = buff\<close> and returns \<open>buff_len\<close>.  The result of the fuzz operation is the
  buffer \<open>*outbuff\<close> points to (the input buffer, or the buffer of the mutator) and
  the bytes returned in it.
\<close>

datatype outbuff = Input_buffer | Mutator_buffer

definition make_new_comux :: "byte list \<Rightarrow> outbuff \<times> byte list" where
  "make_new_comux buff = (Input_buffer, buff)"

text \<open>
  The first loop of \<open>afl_custom_fuzz\<close>, over the \<open>num_chunks\<close> chunks of the header:
  read the chunk header at \<open>buff + total_rcount\<close>, keep the supported flag bits, check
  the chunk, clear \<open>NO_SHUTDOWN\<close>, read the payload and set \<open>len\<close> to the number of
  bytes read.  \<open>None\<close> stands for the \<open>return\<close> through \<open>make_new_comux\<close>.
\<close>

fun fuzz_read_chunks ::
  "nat \<Rightarrow> comux_header \<Rightarrow> byte list \<Rightarrow> nat \<Rightarrow> nat \<Rightarrow> comux_cinfo list \<Rightarrow>
   comux_cinfo list option" where
  "fuzz_read_chunks 0 header buff rcount total_rcount cinfos = Some cinfos"
| "fuzz_read_chunks (Suc n) header buff rcount total_rcount cinfos =
     (case comux_cinfo_read_buffer comux_cinfo_init (drop total_rcount buff) rcount of
        (pr, cinfo, rcount) \<Rightarrow>
          if pr \<noteq> COMUX_PARSE_OK then None
          else
            let total_rcount = total_rcount + rcount;
                cinfo = cinfo\<lparr>flags := flags cinfo AND COMUX_CHUNK_FLAGS_ALL\<rparr>
            in if check_comux_cinfo header cinfo \<noteq> None then None
               else
                 let cinfo = cinfo\<lparr>flags := flags cinfo AND NOT COMUX_CHUNK_FLAGS_NO_SHUTDOWN\<rparr>
                 in case comux_cinfo_data_read_buffer cinfo (drop total_rcount buff) of
                      (cinfo, rcount) \<Rightarrow>
                        let total_rcount = total_rcount + rcount;
                            cinfo = cinfo\<lparr>len := (if len cinfo = of_nat rcount then len cinfo
                                                   else of_nat rcount)\<rparr>
                        in fuzz_read_chunks n header buff rcount total_rcount
                             (cinfos @ [cinfo]))"

text \<open>
  \<open>__gurthang_mut_mutate_cinfos\<close> picks a strategy and a chunk with \<open>rand ()\<close> and
  applies the strategy; a strategy that finds no suitable chunk changes nothing and
  another one is tried.  The draws are given from outside, as the one mutation that
  takes effect, with the values the strategy has drawn or computed:

  \<^item> no strategy applies, or the chunk picked for a data mutation is empty;
  \<^item> \<open>mutate_cinfo_data_havoc\<close> and \<open>mutate_cinfo_data_extra\<close> rewrite bytes of the
    payload of chunk \<open>index\<close> in place: the payload becomes \<open>bytes\<close>, of the same
    length;
  \<^item> \<open>mutate_cinfo_sched_bump\<close> sets \<open>sched\<close> of chunk \<open>index\<close>;
  \<^item> \<open>mutate_cinfo_split\<close> cuts the payload of chunk \<open>index\<close> at a position from 1
    to \<open>len - 1\<close>; \<open>split_left\<close> and \<open>split_right\<close> are the bytes of the two arrays
    that \<open>snprintf\<close> has filled with the two parts (the parts themselves, unless
    they hold a zero byte).  The left part stays, the right part goes to a new chunk
    of the same connection, to be inserted at \<open>index + 1\<close>; the new chunk is scheduled
    one step after the old one, after both have been moved down \<open>shift\<close> steps;
    \<open>AWAIT_RESPONSE\<close> moves from the old chunk to the new one;
  \<^item> \<open>mutate_cinfo_splice\<close> appends the payload of chunk \<open>second\<close> to chunk \<open>first\<close>,
    copies \<open>AWAIT_RESPONSE\<close>, and marks chunk \<open>second\<close> for deletion;
  \<^item> \<open>mutate_cinfo_dict_swap\<close> replaces the dictionary word \<open>dentry\<close> found at
    \<open>dentry_offset\<close> in the payload of chunk \<open>index\<close> by the word \<open>swap\<close>, and leaves
    \<open>len\<close> as it is.  When the payload gets shorter, the buffer keeps behind it the
    terminating zero and the end of the old payload, and \<open>len\<close> bytes are still
    written out: \<open>data\<close> then holds these bytes too.

  The source picks every index below the number of chunks, and the two parts of a
  split have the length of the payload between them; the model leaves the chunks
  alone when the values given are not of this kind.
\<close>

datatype mutation =
    Mutation_none
  | Mutation_data nat "byte list"
  | Mutation_sched_bump nat u32
  | Mutation_split nat "byte list" "byte list" u32
  | Mutation_splice nat nat
  | Mutation_dict_swap nat nat dict_entry dict_entry

definition mutate_cinfo_data :: "comux_cinfo \<Rightarrow> byte list \<Rightarrow> comux_cinfo" where
  "mutate_cinfo_data cinfo bytes =
     (if len cinfo = 0 \<or> length bytes \<noteq> length (data cinfo) then cinfo
      else cinfo\<lparr>data := bytes\<rparr>)"

definition mutate_cinfo_split ::
  "comux_cinfo list \<Rightarrow> nat \<Rightarrow> byte list \<Rightarrow> byte list \<Rightarrow> u32 \<Rightarrow>
   comux_cinfo list \<times> comux_cinfo \<times> int" where
  "mutate_cinfo_split cinfos index split_left split_right shift =
     (let old = cinfos ! index;
          new_cinfo = comux_cinfo_init;
          new_cinfo = new_cinfo\<lparr>data := data new_cinfo @ split_right,
                                 len := len new_cinfo + of_nat (length split_right)\<rparr>;
          old = old\<lparr>data := [], len := 0\<rparr>;
          old = old\<lparr>data := data old @ split_left, len := len old + of_nat (length split_left)\<rparr>;
          new_cinfo = new_cinfo\<lparr>sched := sched old + 1\<rparr>;
          old = old\<lparr>sched := sched old - shift\<rparr>;
          new_cinfo = new_cinfo\<lparr>sched := sched new_cinfo - shift\<rparr>;
          new_cinfo = new_cinfo\<lparr>id_conn := id_conn old\<rparr>
      in if flags old AND COMUX_CHUNK_FLAGS_AWAIT_RESPONSE \<noteq> 0
         then (cinfos [index := old\<lparr>flags := flags old XOR COMUX_CHUNK_FLAGS_AWAIT_RESPONSE\<rparr>],
               new_cinfo\<lparr>flags := flags new_cinfo OR COMUX_CHUNK_FLAGS_AWAIT_RESPONSE\<rparr>,
               int index + 1)
         else (cinfos [index := old], new_cinfo, int index + 1))"

definition mutate_cinfo_splice :: "comux_cinfo list \<Rightarrow> nat \<Rightarrow> nat \<Rightarrow> comux_cinfo list \<times> int" where
  "mutate_cinfo_splice cinfos first second =
     (let a = cinfos ! first;
          b = cinfos ! second;
          a = a\<lparr>data := data a @ data b, len := len a + of_nat (length (data b))\<rparr>;
          a = (if flags b AND COMUX_CHUNK_FLAGS_AWAIT_RESPONSE \<noteq> 0
               then a\<lparr>flags := flags a OR COMUX_CHUNK_FLAGS_AWAIT_RESPONSE\<rparr> else a)
      in (cinfos [first := a], int second))"

definition mutate_cinfo_dict_swap ::
  "comux_cinfo \<Rightarrow> nat \<Rightarrow> dict_entry \<Rightarrow> dict_entry \<Rightarrow> comux_cinfo" where
  "mutate_cinfo_dict_swap cinfo dentry_offset dentry swap =
     (let old = data cinfo;
          new = take dentry_offset old @ take (len_entry swap) (str swap) @
                drop (dentry_offset + len_entry dentry) old
      in cinfo\<lparr>data := (if length new < length old
                          then new @ 0 # drop (length new + 1) old else new)\<rparr>)"

text \<open>
  The result of \<open>mutate_cinfos\<close>: the chunks, \<open>new_cinfo\<close>, \<open>new_cinfo_index\<close> and
  \<open>delete_cinfo_index\<close> (both \<open>-1\<close> unless a strategy sets them).
\<close>

definition mutate_cinfos ::
  "mutation \<Rightarrow> comux_cinfo list \<Rightarrow> comux_cinfo list \<times> comux_cinfo \<times> int \<times> int" where
  "mutate_cinfos m cinfos =
     (case m of
        Mutation_none \<Rightarrow> (cinfos, comux_cinfo_init, - 1, - 1)
      | Mutation_data index bytes \<Rightarrow>
          if index < length cinfos
          then (cinfos [index := mutate_cinfo_data (cinfos ! index) bytes],
                comux_cinfo_init, - 1, - 1)
          else (cinfos, comux_cinfo_init, - 1, - 1)
      | Mutation_sched_bump index new_sched \<Rightarrow>
          if index < length cinfos
          then (cinfos [index := (cinfos ! index)\<lparr>sched := new_sched\<rparr>],
                comux_cinfo_init, - 1, - 1)
          else (cinfos, comux_cinfo_init, - 1, - 1)
      | Mutation_split index split_left split_right shift \<Rightarrow>
          if index < length cinfos \<and> split_left \<noteq> [] \<and> split_right \<noteq> [] \<and>
             length split_left + length split_right = unat (len (cinfos ! index))
          then (case mutate_cinfo_split cinfos index split_left split_right shift of
                  (cinfos, new_cinfo, new_cinfo_index) \<Rightarrow>
                    (cinfos, new_cinfo, new_cinfo_index, - 1))
          else (cinfos, comux_cinfo_init, - 1, - 1)
      | Mutation_splice first second \<Rightarrow>
          if first < length cinfos \<and> second < length cinfos
          then (case mutate_cinfo_splice cinfos first second of
                  (cinfos, delete_cinfo_index) \<Rightarrow>
                    (cinfos, comux_cinfo_init, - 1, delete_cinfo_index))
          else (cinfos, comux_cinfo_init, - 1, - 1)
      | Mutation_dict_swap index dentry_offset dentry swap \<Rightarrow>
          if index < length cinfos
          then (cinfos [index := mutate_cinfo_dict_swap (cinfos ! index) dentry_offset
                                   dentry swap],
                comux_cinfo_init, - 1, - 1)
          else (cinfos, comux_cinfo_init, - 1, - 1))"

text \<open>
  The second loop of \<open>afl_custom_fuzz\<close>, \<open>for (i = 0; i < num_chunks + 1; i++)\<close>: the
  new chunk is written when \<open>i\<close> reaches \<open>new_cinfo_index\<close>, after which \<open>i\<close> is
  stepped back and \<open>new_cinfo_index\<close> reset, so that chunk \<open>i\<close> follows; the chunk at
  \<open>delete_cinfo_index\<close> is skipped.  \<open>out\<close> is what the buffer of the mutator holds.
  When a record does not fit into \<open>max_len\<close> the input buffer is returned.
\<close>

function fuzz_write_chunks ::
  "comux_cinfo list \<Rightarrow> nat \<Rightarrow> nat \<Rightarrow> comux_cinfo \<Rightarrow> int \<Rightarrow> int \<Rightarrow> nat \<Rightarrow> byte list \<Rightarrow>
   byte list \<Rightarrow> outbuff \<times> byte list" where
  "fuzz_write_chunks cinfos n i new_cinfo new_cinfo_index delete_cinfo_index max_len buff out =
     (if i < n + 1 then
        let new_cinfo_match = (new_cinfo_index > - 1 \<and> new_cinfo_index = int i) in
        if i = n \<and> \<not> new_cinfo_match
        then fuzz_write_chunks cinfos n (i + 1) new_cinfo new_cinfo_index delete_cinfo_index
               max_len buff out
        else if i \<noteq> n \<and> delete_cinfo_index > - 1 \<and> delete_cinfo_index = int i
        then fuzz_write_chunks cinfos n (i + 1) new_cinfo new_cinfo_index delete_cinfo_index
               max_len buff out
        else
          let cinfo = (if new_cinfo_match then new_cinfo else cinfos ! i) in
          case comux_cinfo_write_buffer cinfo (max_len - length out) of (wcount, bytes) \<Rightarrow>
            if wcount < 0 then (Input_buffer, buff)
            else
              let out = out @ bytes in
              case comux_cinfo_data_write_buffer cinfo (max_len - length out) of
                (wcount, bytes) \<Rightarrow>
                  if wcount < 0 then (Input_buffer, buff)
                  else
                    let out = out @ bytes in
                    if new_cinfo_match
                    then fuzz_write_chunks cinfos n i new_cinfo (- 1) delete_cinfo_index
                           max_len buff out
                    else fuzz_write_chunks cinfos n (i + 1) new_cinfo new_cinfo_index
                           delete_cinfo_index max_len buff out
      else (Mutator_buffer, out))"
  by pat_completeness auto
termination
  by (relation "measure (\<lambda>(cinfos, n, i, new_cinfo, new_cinfo_index, delete_cinfo_index,
          max_len, buff, out). 2 * (n + 1 - i) + (if new_cinfo_index > - 1 then 1 else 0))")
     auto

declare fuzz_write_chunks.simps [simp del]

text \<open>
  \<open>afl_custom_fuzz\<close>.  Of its arguments the result depends on the input buffer and on
  \<open>max_len\<close>, and on the draws of \<open>mutate_cinfos\<close>; the additional test case
  \<open>addbuff\<close> is not used by the source.  The buffer of the mutator is taken to have
  room for \<open>max_len\<close> bytes.
\<close>

definition afl_custom_fuzz :: "mutation \<Rightarrow> byte list \<Rightarrow> nat \<Rightarrow> outbuff \<times> byte list" where
  "afl_custom_fuzz m buff max_len =
     (case comux_header_read_buffer comux_header_init buff 0 of (pr, header, rcount) \<Rightarrow>
        if pr \<noteq> COMUX_PARSE_OK then make_new_comux buff
        else
          let total_rcount = rcount in
          if check_comux_header header \<noteq> None then make_new_comux buff
          else
            let header = header\<lparr>version := 0\<rparr>;
                n = num_chunks header
            in case fuzz_read_chunks (unat n) header buff rcount total_rcount [] of
                 None \<Rightarrow> make_new_comux buff
               | Some cinfos \<Rightarrow>
                   (case mutate_cinfos m cinfos of
                      (cinfos, new_cinfo, new_cinfo_index, delete_cinfo_index) \<Rightarrow>
                        let header =
                              (if new_cinfo_index > - 1
                               then header\<lparr>num_chunks := num_chunks header + 1\<rparr>
                               else if delete_cinfo_index > - 1
                               then header\<lparr>num_chunks := num_chunks header - 1\<rparr>
                               else header)
                        in case comux_header_write_buffer header max_len of
                             (wcount, bytes) \<Rightarrow>
                               if wcount < 0 then (Input_buffer, buff)
                               else fuzz_write_chunks cinfos (unat n) 0 new_cinfo
                                      new_cinfo_index delete_cinfo_index max_len buff bytes))"



section \<open>Well-formed manifests and their bytes\<close>

text \<open>
  A chunk is in order when its \<open>len\<close> field is the length of its payload, at most
  524288.  A manifest is well formed when its magic is \<open>comux!!!\<close>, \<open>num_chunks\<close> is
  the number of its chunks, and every chunk is in order.
\<close>

definition chunk_ok :: "comux_cinfo \<Rightarrow> bool" where
  "chunk_ok c = (unat (len c) = length (data c) \<and> length (data c) \<le> 524288)"

definition well_formed :: "comux_manifest \<Rightarrow> bool" where
  "well_formed M =
     (magic (manifest_header M) = COMUX_MAGIC \<and>
      unat (num_chunks (manifest_header M)) = length (manifest_cinfo_list M) \<and>
      (\<forall>c\<in>set (manifest_cinfo_list M). chunk_ok c))"

text \<open>The 20 bytes of a header, the 20 bytes of a chunk record header, a whole record.\<close>

definition header_bytes :: "comux_header \<Rightarrow> byte list" where
  "header_bytes h = take 8 (magic h) @ u32_to_bytes (version h) @ u32_to_bytes (num_conns h) @
     u32_to_bytes (num_chunks h)"

definition cinfo_bytes :: "comux_cinfo \<Rightarrow> byte list" where
  "cinfo_bytes c = u32_to_bytes (id_conn c) @ u64_to_bytes (len c) @ u32_to_bytes (sched c) @
     u32_to_bytes (flags c)"

definition chunk_bytes :: "comux_cinfo \<Rightarrow> byte list" where
  "chunk_bytes c = cinfo_bytes c @ data c"

definition chunks_size :: "comux_cinfo list \<Rightarrow> nat" where
  "chunks_size cs = (\<Sum>c\<leftarrow>cs. 20 + length (data c))"

definition encoded_size :: "comux_manifest \<Rightarrow> nat" where
  "encoded_size M = 20 + chunks_size (manifest_cinfo_list M)"

text \<open>
  \<open>place p cs\<close>: the chunks \<open>cs\<close> with the offsets they have when their records
  follow each other in a file from position \<open>p\<close> on.
\<close>

fun place :: "nat \<Rightarrow> comux_cinfo list \<Rightarrow> comux_cinfo list" where
  "place p [] = []"
| "place p (c # cs) = c\<lparr>offset := int p\<rparr> # place (p + 20 + length (data c)) cs"

section \<open>Properties of the validators\<close>

lemma MAX_CONNECTIONS_unat: "unat MAX_CONNECTIONS = 4096"
  by (simp add: MAX_CONNECTIONS_def)

lemma MAX_CHUNKS_unat: "unat MAX_CHUNKS = 8192"
  by (simp add: MAX_CHUNKS_def)

lemma bit_three_iff: "bit (3 :: u32) n = (n < 2)"
proof -
  have "bit (mask 2 :: u32) n = (n < 2)" by (auto simp: bit_mask_iff)
  moreover have "(mask 2 :: u32) = 3" by (simp add: mask_eq_exp_minus_1)
  ultimately show ?thesis by simp
qed

lemma u32_nonzero_iff: "((x :: u32) \<noteq> 0) = (\<exists>n. bit x n)"
  using bit_eq_iff [of x 0] by (auto dest: bit_imp_le_length)

lemma outside_mask_iff:
  "(w AND NOT COMUX_CHUNK_FLAGS_ALL \<noteq> 0) = (\<exists>n. 2 \<le> n \<and> bit (w :: u32) n)"
proof -
  have b: "bit (w AND NOT 3) n = (2 \<le> n \<and> bit w n)" for n
    unfolding bit_and_iff bit_not_iff bit_three_iff using bit_imp_le_length [of w n]
    by (auto simp: not_less)
  have "(w AND NOT 3 \<noteq> 0) = (\<exists>n. bit (w AND NOT 3) n)"
    by (rule u32_nonzero_iff)
  also have "\<dots> = (\<exists>n. 2 \<le> n \<and> bit w n)"
    unfolding b ..
  finally show ?thesis unfolding COMUX_CHUNK_FLAGS_ALL_def .
qed

lemma check_comux_header_fails:
  "(check_comux_header H \<noteq> None) =
     (unat (num_conns H) = 0 \<or> 4096 < unat (num_conns H) \<or>
      unat (num_chunks H) = 0 \<or> 8192 < unat (num_chunks H))"
  by (auto simp: check_comux_header_def word_less_nat_alt unat_eq_0
      MAX_CONNECTIONS_unat MAX_CHUNKS_unat)

lemma check_comux_cinfo_fails:
  "(check_comux_cinfo H C \<noteq> None) =
     (unat (num_conns H) \<le> unat (id_conn C) \<or> (\<exists>n. 2 \<le> n \<and> bit (flags C) n))"
  using outside_mask_iff [of "flags C"]
  by (auto simp: check_comux_cinfo_def Let_def word_le_nat_alt)

text \<open>
  Claim C6.  The header validator returns a diagnostic exactly when \<open>num_conns\<close> is 0
  or above 4096, or \<open>num_chunks\<close> is 0 or above 8192; the chunk validator returns a
  diagnostic exactly when the connection id is not below \<open>num_conns\<close> or the flags have
  a bit set at a position outside the mask \<open>0x3\<close> (bit 2 or higher).  In every other
  case each returns success (\<open>None\<close>, the C \<open>NULL\<close>).
\<close>

theorem validators_fail_iff:
  "((check_comux_header H \<noteq> None) =
      (unat (num_conns H) = 0 \<or> 4096 < unat (num_conns H) \<or>
       unat (num_chunks H) = 0 \<or> 8192 < unat (num_chunks H))) \<and>
   ((check_comux_cinfo H C \<noteq> None) =
      (unat (num_conns H) \<le> unat (id_conn C) \<or> (\<exists>n. 2 \<le> n \<and> bit (flags C) n)))"
  using check_comux_header_fails [of H] check_comux_cinfo_fails [of H C] by blast

section \<open>Properties of the dispatch order\<close>






section \<open>Properties of the codec on buffers\<close>

lemma bit_255_iff: "bit (255 :: 'a::len word) n = (n < 8 \<and> n < LENGTH('a))"
proof -
  have "bit (mask 8 :: 'a word) n = (n < 8 \<and> n < LENGTH('a))" by (auto simp: bit_mask_iff)
  moreover have "(mask 8 :: 'a word) = 255" by (simp add: mask_eq_exp_minus_1)
  ultimately show ?thesis by simp
qed

lemma bit_byte_at:
  assumes "s + 8 \<le> LENGTH('a)"
  shows "bit (push_bit s (ucast (ucast (drop_bit s (v :: 'a::len word) AND 255) :: byte) :: 'a word)) n
         = (s \<le> n \<and> n < s + 8 \<and> bit v n)"
proof (cases "s \<le> n \<and> n < s + 8")
  case True
  define k where "k = n - s"
  have k: "k < 8" "k < LENGTH('a)" "n = s + k" "s + k < LENGTH('a)"
    using True assms by (auto simp: k_def)
  have "bit (255 :: 'a word) k" using k(1,2) by (simp only: bit_255_iff)
  then show ?thesis unfolding \<open>n = s + k\<close> using k(1,2,4)
    by (simp add: bit_push_bit_iff bit_ucast_iff bit_and_iff bit_drop_bit_eq)
next
  case False
  then show ?thesis
    by (auto simp: bit_push_bit_iff bit_ucast_iff bit_and_iff bit_drop_bit_eq bit_255_iff)
qed

lemma bytes_to_u32_inverse: "bytes_to_u32 (u32_to_bytes v) = v"
proof (rule bit_word_eqI)
  fix n assume "n < LENGTH(32)"
  then have n: "n < 32" by simp
  have "bytes_to_u32 (u32_to_bytes v) =
     ((push_bit 0 (ucast (ucast (drop_bit 0 v AND 255) :: byte)) OR
     push_bit 8 (ucast (ucast (drop_bit 8 v AND 255) :: byte))) OR
     push_bit 16 (ucast (ucast (drop_bit 16 v AND 255) :: byte))) OR
     push_bit 24 (ucast (ucast (drop_bit 24 v AND 255) :: byte))"
    by (simp add: bytes_to_u32_def u32_to_bytes_def)
  then have "bit (bytes_to_u32 (u32_to_bytes v)) n =
     ((((0 \<le> n \<and> n < 0 + 8 \<and> bit v n) \<or> (8 \<le> n \<and> n < 8 + 8 \<and> bit v n)) \<or>
      (16 \<le> n \<and> n < 16 + 8 \<and> bit v n)) \<or> (24 \<le> n \<and> n < 24 + 8 \<and> bit v n))"
    by (simp only: bit_or_iff bit_byte_at [where 'a=32, simplified])
  moreover have "(0 \<le> n \<and> n < 0 + 8) \<or> (8 \<le> n \<and> n < 8 + 8) \<or> (16 \<le> n \<and> n < 16 + 8) \<or>
      (24 \<le> n \<and> n < 24 + 8)"
    using n by arith
  ultimately show "bit (bytes_to_u32 (u32_to_bytes v)) n = bit v n"
    by blast
qed

lemma bytes_to_u64_inverse: "bytes_to_u64 (u64_to_bytes v) = v"
proof (rule bit_word_eqI)
  fix n assume "n < LENGTH(64)"
  then have n: "n < 64" by simp
  have "bytes_to_u64 (u64_to_bytes v) =
     ((((((push_bit 0 (ucast (ucast (drop_bit 0 v AND 255) :: byte)) OR
     push_bit 8 (ucast (ucast (drop_bit 8 v AND 255) :: byte))) OR
     push_bit 16 (ucast (ucast (drop_bit 16 v AND 255) :: byte))) OR
     push_bit 24 (ucast (ucast (drop_bit 24 v AND 255) :: byte))) OR
     push_bit 32 (ucast (ucast (drop_bit 32 v AND 255) :: byte))) OR
     push_bit 40 (ucast (ucast (drop_bit 40 v AND 255) :: byte))) OR
     push_bit 48 (ucast (ucast (drop_bit 48 v AND 255) :: byte))) OR
     push_bit 56 (ucast (ucast (drop_bit 56 v AND 255) :: byte))"
    by (simp add: bytes_to_u64_def u64_to_bytes_def)
  then have "bit (bytes_to_u64 (u64_to_bytes v)) n =
     ((((((((0 \<le> n \<and> n < 0 + 8 \<and> bit v n) \<or> (8 \<le> n \<and> n < 8 + 8 \<and> bit v n)) \<or>
      (16 \<le> n \<and> n < 16 + 8 \<and> bit v n)) \<or> (24 \<le> n \<and> n < 24 + 8 \<and> bit v n)) \<or>
      (32 \<le> n \<and> n < 32 + 8 \<and> bit v n)) \<or> (40 \<le> n \<and> n < 40 + 8 \<and> bit v n)) \<or>
      (48 \<le> n \<and> n < 48 + 8 \<and> bit v n)) \<or> (56 \<le> n \<and> n < 56 + 8 \<and> bit v n))"
    by (simp only: bit_or_iff bit_byte_at [where 'a=64, simplified])
  moreover have "(0 \<le> n \<and> n < 0 + 8) \<or> (8 \<le> n \<and> n < 8 + 8) \<or> (16 \<le> n \<and> n < 16 + 8) \<or>
      (24 \<le> n \<and> n < 24 + 8) \<or> (32 \<le> n \<and> n < 32 + 8) \<or> (40 \<le> n \<and> n < 40 + 8) \<or>
      (48 \<le> n \<and> n < 48 + 8) \<or> (56 \<le> n \<and> n < 56 + 8)"
    using n by arith
  ultimately show "bit (bytes_to_u64 (u64_to_bytes v)) n = bit v n"
    by blast
qed

lemma length_u32_to_bytes [simp]: "length (u32_to_bytes v) = 4"
  by (simp add: u32_to_bytes_def)

lemma length_u64_to_bytes [simp]: "length (u64_to_bytes v) = 8"
  by (simp add: u64_to_bytes_def)

lemma length_COMUX_MAGIC [simp]: "length COMUX_MAGIC = 8"
  by (simp add: COMUX_MAGIC_def)

lemma length_cinfo_bytes [simp]: "length (cinfo_bytes c) = 20"
  by (simp add: cinfo_bytes_def)

lemma header_read_buffer_bytes:
  assumes "magic h = COMUX_MAGIC"
  shows "comux_header_read_buffer h0 (header_bytes h @ rest) rl = (COMUX_PARSE_OK, h, 20)"
proof -
  have "h0\<lparr>magic := COMUX_MAGIC, version := version h, num_conns := num_conns h,
           num_chunks := num_chunks h\<rparr> = h"
    using assms by simp
  then show ?thesis
    using assms
    by (simp add: comux_header_read_buffer_def header_bytes_def COMUX_MAGIC_LEN_def Let_def
        bytes_to_u32_inverse)
qed

lemma cinfo_read_buffer_bytes:
  "comux_cinfo_read_buffer comux_cinfo_init (cinfo_bytes c @ rest) rl =
     (COMUX_PARSE_OK, c\<lparr>data := [], offset := 0\<rparr>, 20)"
  by (simp add: comux_cinfo_read_buffer_def cinfo_bytes_def Let_def comux_cinfo_init_def
        bytes_to_u32_inverse bytes_to_u64_inverse)


lemma chunk_ok_len: "chunk_ok c \<Longrightarrow> len c = of_nat (length (data c))"
proof -
  assume "chunk_ok c"
  then have "of_nat (length (data c)) = (of_nat (unat (len c)) :: u64)"
    by (simp add: chunk_ok_def)
  then show ?thesis by simp
qed

lemma chunk_ok_cap: "chunk_ok c \<Longrightarrow> \<not> len c > COMUX_CHUNK_DATA_MAXLEN"
  by (simp add: chunk_ok_def COMUX_CHUNK_DATA_MAXLEN_def word_less_nat_alt)

lemma cinfo_data_read_buffer_bytes:
  assumes "chunk_ok c"
  shows "comux_cinfo_data_read_buffer (c\<lparr>data := d, offset := 0\<rparr>) (data c @ rest) =
           (c\<lparr>offset := 0\<rparr>, length (data c))"
  using assms chunk_ok_cap [OF assms] chunk_ok_len [OF assms]
  by (simp add: comux_cinfo_data_read_buffer_def Let_def chunk_ok_def)

lemma length_chunk_bytes: "length (chunk_bytes c) = 20 + length (data c)"
  by (simp add: chunk_bytes_def)

lemma read_chunks_buffer_bytes:
  assumes "\<forall>c\<in>set cs. chunk_ok c" "i + length cs = n"
  shows "read_chunks_buffer (pre @ concat (map chunk_bytes cs) @ rest) n i COMUX_PARSE_OK rc
           (length pre) acc =
         (COMUX_PARSE_OK, length pre + length (concat (map chunk_bytes cs)),
          acc @ map (\<lambda>c. c\<lparr>offset := 0\<rparr>) cs)"
  using assms
proof (induction cs arbitrary: i pre acc rc)
  case Nil
  then show ?case by (simp add: read_chunks_buffer.simps)
next
  case (Cons c cs)
  define B where "B = pre @ concat (map chunk_bytes (c # cs)) @ rest"
  have ok: "chunk_ok c" using Cons.prems(1) by simp
  have i: "i < n" using Cons.prems(2) by simp
  have hd: "comux_cinfo_read_buffer comux_cinfo_init (drop (length pre) B) rc =
            (COMUX_PARSE_OK, c\<lparr>data := [], offset := 0\<rparr>, 20)"
    using cinfo_read_buffer_bytes [of c "data c @ concat (map chunk_bytes cs) @ rest" rc]
    by (simp add: chunk_bytes_def B_def)
  have dt: "comux_cinfo_data_read_buffer (c\<lparr>data := [], offset := 0\<rparr>)
              (drop (length pre + 20) B) = (c\<lparr>offset := 0\<rparr>, length (data c))"
    using cinfo_data_read_buffer_bytes [OF ok, of "[]" "concat (map chunk_bytes cs) @ rest"]
    by (simp add: chunk_bytes_def B_def)
  have len: "unat (len c) = length (data c)" using ok by (simp add: chunk_ok_def)
  have step: "read_chunks_buffer B n i COMUX_PARSE_OK rc (length pre) acc =
              read_chunks_buffer B n (Suc i) COMUX_PARSE_OK (length (data c))
                (length pre + 20 + length (data c)) (acc @ [c\<lparr>offset := 0\<rparr>])"
    using i by (subst read_chunks_buffer.simps) (simp add: hd dt len Let_def)
  have B': "B = (pre @ chunk_bytes c) @ concat (map chunk_bytes cs) @ rest"
    by (simp add: B_def)
  have "read_chunks_buffer ((pre @ chunk_bytes c) @ concat (map chunk_bytes cs) @ rest) n (Suc i)
          COMUX_PARSE_OK (length (data c)) (length (pre @ chunk_bytes c))
          (acc @ [c\<lparr>offset := 0\<rparr>]) =
        (COMUX_PARSE_OK, length (pre @ chunk_bytes c) + length (concat (map chunk_bytes cs)),
         (acc @ [c\<lparr>offset := 0\<rparr>]) @ map (\<lambda>c. c\<lparr>offset := 0\<rparr>) cs)"
    by (rule Cons.IH) (use Cons.prems in auto)
  then have "read_chunks_buffer B n (Suc i) COMUX_PARSE_OK (length (data c))
                (length pre + 20 + length (data c)) (acc @ [c\<lparr>offset := 0\<rparr>]) =
        (COMUX_PARSE_OK, length (pre @ chunk_bytes c) + length (concat (map chunk_bytes cs)),
         (acc @ [c\<lparr>offset := 0\<rparr>]) @ map (\<lambda>c. c\<lparr>offset := 0\<rparr>) cs)"
    unfolding B' by (simp add: length_chunk_bytes add.assoc)
  then show ?case
    using step unfolding B_def by (simp add: length_chunk_bytes add.assoc)
qed

lemma comux_cinfo_write_buffer_ok:
  "20 \<le> m \<Longrightarrow> comux_cinfo_write_buffer c m = (20, cinfo_bytes c)"
  by (simp add: comux_cinfo_write_buffer_def cinfo_bytes_def)

lemma sint_small: 
  assumes "unat (w :: u64) < 2 ^ 63"
  shows "sint w = int (unat w)"
proof -
  have "int (unat w) < int (2 ^ 63)" using assms by (simp only: of_nat_less_iff)
  then have "uint w < 2 ^ 63" by (simp only: uint_nat of_nat_power of_nat_numeral)
  moreover have "- (2 ^ 63) \<le> uint w"
    by (rule order_trans [of _ 0]) simp_all
  ultimately have "signed_take_bit 63 (uint w) = uint w"
    by (intro signed_take_bit_int_eq_self)
  then show ?thesis by (simp add: sint_uint)
qed

lemma comux_cinfo_data_write_buffer_ok:
  assumes "chunk_ok c" "length (data c) \<le> m"
  shows "comux_cinfo_data_write_buffer c m = (int (length (data c)), data c)"
proof -
  have l: "unat (len c) = length (data c)" using assms by (simp add: chunk_ok_def)
  have "unat (len c) \<le> 524288" using assms by (simp add: chunk_ok_def)
  then have "unat (len c) < 2 ^ 63" by simp
  then have "sint (len c) = int (unat (len c))" by (rule sint_small)
  then show ?thesis using assms l
    by (simp add: comux_cinfo_data_write_buffer_def Let_def)
qed

lemma write_chunks_buffer_ok:
  assumes "\<forall>c\<in>set cs. chunk_ok c" "int (chunks_size cs) \<le> sr"
  shows "write_chunks_buffer cs sr tw buff =
           (tw + int (chunks_size cs), buff @ concat (map chunk_bytes cs))"
  using assms
proof (induction cs arbitrary: sr tw buff)
  case Nil
  then show ?case by (simp add: chunks_size_def)
next
  case (Cons c cs)
  have ok: "chunk_ok c" using Cons.prems(1) by simp
  have sz: "chunks_size (c # cs) = 20 + length (data c) + chunks_size cs"
    by (simp add: chunks_size_def)
  have w1: "comux_cinfo_write_buffer c (nat sr) = (20, cinfo_bytes c)"
    using Cons.prems(2) sz by (intro comux_cinfo_write_buffer_ok) linarith
  have w2: "comux_cinfo_data_write_buffer c (nat (max 0 (sr - 20))) =
              (int (length (data c)), data c)"
    using Cons.prems(2) sz by (intro comux_cinfo_data_write_buffer_ok [OF ok]) linarith
  have "write_chunks_buffer cs (max 0 (max 0 (sr - 20) - int (length (data c))))
          (tw + 20 + int (length (data c))) ((buff @ cinfo_bytes c) @ data c) =
        (tw + 20 + int (length (data c)) + int (chunks_size cs),
         ((buff @ cinfo_bytes c) @ data c) @ concat (map chunk_bytes cs))"
    using Cons.prems sz by (intro Cons.IH) auto
  then show ?case
    by (simp add: w1 w2 Let_def sz chunk_bytes_def [of c])
qed


lemma length_concat_chunk_bytes: "length (concat (map chunk_bytes cs)) = chunks_size cs"
  by (induction cs) (simp_all add: chunks_size_def length_chunk_bytes)

lemma length_header_bytes: "length (magic h) = 8 \<Longrightarrow> length (header_bytes h) = 20"
  by (simp add: header_bytes_def)

text \<open>
  Claim C1.  For a well-formed manifest \<open>M\<close> and a buffer that has room for its encoding,
  \<open>comux_manifest_write_buffer\<close> produces \<open>encoded_size M\<close> bytes, and
  \<open>comux_manifest_read_buffer\<close> on these bytes (into a freshly initialised manifest)
  returns \<open>COMUX_PARSE_OK\<close> and a manifest with the header of \<open>M\<close> and the chunks of \<open>M\<close>
  in the same order, each with the same \<open>id\<close>, \<open>len\<close>, \<open>sched\<close>, \<open>flags\<close> and payload
  (the in-memory \<open>offset\<close>, which is not part of the encoding, is the 0 of
  \<open>comux_cinfo_init\<close>).
\<close>

theorem codec_roundtrip:
  assumes "well_formed M" and "encoded_size M \<le> max_len"
  shows "\<exists>bs. comux_manifest_write_buffer M max_len = (int (encoded_size M), bs) \<and>
              length bs = encoded_size M \<and>
              comux_manifest_read_buffer comux_manifest_init bs read_len =
                (COMUX_PARSE_OK,
                 \<lparr>manifest_header = manifest_header M,
                  manifest_cinfo_list = map (\<lambda>c. c\<lparr>offset := 0\<rparr>) (manifest_cinfo_list M)\<rparr>,
                 encoded_size M)"
proof -
  define h where "h = manifest_header M"
  define cs where "cs = manifest_cinfo_list M"
  define bs where "bs = header_bytes h @ concat (map chunk_bytes cs)"
  have mg: "magic h = COMUX_MAGIC" and n: "unat (num_chunks h) = length cs"
    and ok: "\<forall>c\<in>set cs. chunk_ok c"
    using assms(1) by (simp_all add: well_formed_def h_def cs_def)
  have sz: "encoded_size M = 20 + chunks_size cs"
    by (simp add: encoded_size_def cs_def)
  have hw: "comux_header_write_buffer h max_len = (20, header_bytes h)"
    using assms(2) sz
    by (simp add: comux_header_write_buffer_def header_bytes_def COMUX_MAGIC_LEN_def)
  have cw: "write_chunks_buffer cs (max 0 (int max_len - 20)) 20 (header_bytes h) =
              (20 + int (chunks_size cs), header_bytes h @ concat (map chunk_bytes cs))"
    using assms(2) sz by (intro write_chunks_buffer_ok [OF ok]) linarith
  have w: "comux_manifest_write_buffer M max_len = (int (encoded_size M), bs)"
    using hw cw
    by (simp add: comux_manifest_write_buffer_def Let_def h_def [symmetric] cs_def [symmetric]
        sz bs_def)
  have lb: "length bs = encoded_size M"
    using mg by (simp add: bs_def sz length_header_bytes length_concat_chunk_bytes)
  have hr: "comux_header_read_buffer comux_header_init bs 0 = (COMUX_PARSE_OK, h, 20)"
    unfolding bs_def by (rule header_read_buffer_bytes [OF mg])
  have lh: "length (header_bytes h) = 20" using mg by (simp add: length_header_bytes)
  have "read_chunks_buffer (header_bytes h @ concat (map chunk_bytes cs) @ []) (length cs) 0
          COMUX_PARSE_OK 20 (length (header_bytes h)) [] =
        (COMUX_PARSE_OK, length (header_bytes h) + length (concat (map chunk_bytes cs)),
          [] @ map (\<lambda>c. c\<lparr>offset := 0\<rparr>) cs)"
    by (rule read_chunks_buffer_bytes [OF ok]) simp
  then have cr: "read_chunks_buffer bs (length cs) 0 COMUX_PARSE_OK 20 20 [] =
        (COMUX_PARSE_OK, encoded_size M, map (\<lambda>c. c\<lparr>offset := 0\<rparr>) cs)"
    by (simp add: bs_def lh sz length_concat_chunk_bytes)
  have r: "comux_manifest_read_buffer comux_manifest_init bs read_len =
                (COMUX_PARSE_OK,
                 \<lparr>manifest_header = h,
                  manifest_cinfo_list = map (\<lambda>c. c\<lparr>offset := 0\<rparr>) cs\<rparr>,
                 encoded_size M)"
    by (simp add: comux_manifest_read_buffer_def comux_manifest_init_def hr n cr)
  show ?thesis using w lb r unfolding h_def cs_def by blast
qed


theorem codec_roundtrip_witness:
  "well_formed
     \<lparr>manifest_header = \<lparr>magic = COMUX_MAGIC, version = 0, num_conns = 1, num_chunks = 1\<rparr>,
      manifest_cinfo_list =
        [\<lparr>id_conn = 0, len = 5, sched = 0, flags = 0,
          data = [0x68, 0x65, 0x6c, 0x6c, 0x6f], offset = 0\<rparr>]\<rparr> \<and>
   comux_manifest_write_buffer
     \<lparr>manifest_header = \<lparr>magic = COMUX_MAGIC, version = 0, num_conns = 1, num_chunks = 1\<rparr>,
      manifest_cinfo_list =
        [\<lparr>id_conn = 0, len = 5, sched = 0, flags = 0,
          data = [0x68, 0x65, 0x6c, 0x6c, 0x6f], offset = 0\<rparr>]\<rparr> 45 =
     (45, [0x63, 0x6f, 0x6d, 0x75, 0x78, 0x21, 0x21, 0x21, 0, 0, 0, 0, 1, 0, 0, 0, 1, 0, 0, 0,
           0, 0, 0, 0, 5, 0, 0, 0, 0, 0, 0, 0, 0, 0, 0, 0, 0, 0, 0, 0,
           0x68, 0x65, 0x6c, 0x6c, 0x6f]) \<and>
   comux_manifest_read_buffer comux_manifest_init
     [0x63, 0x6f, 0x6d, 0x75, 0x78, 0x21, 0x21, 0x21, 0, 0, 0, 0, 1, 0, 0, 0, 1, 0, 0, 0,
      0, 0, 0, 0, 5, 0, 0, 0, 0, 0, 0, 0, 0, 0, 0, 0, 0, 0, 0, 0,
      0x68, 0x65, 0x6c, 0x6c, 0x6f] 0 =
     (COMUX_PARSE_OK,
      \<lparr>manifest_header = \<lparr>magic = COMUX_MAGIC, version = 0, num_conns = 1, num_chunks = 1\<rparr>,
       manifest_cinfo_list =
         [\<lparr>id_conn = 0, len = 5, sched = 0, flags = 0,
           data = [0x68, 0x65, 0x6c, 0x6c, 0x6f], offset = 0\<rparr>]\<rparr>, 45)"
proof -
  let ?M = "\<lparr>manifest_header = \<lparr>magic = COMUX_MAGIC, version = 0, num_conns = 1, num_chunks = 1\<rparr>,
      manifest_cinfo_list =
        [\<lparr>id_conn = 0, len = 5, sched = 0, flags = 0,
          data = [0x68, 0x65, 0x6c, 0x6c, 0x6f], offset = 0\<rparr>]\<rparr>"
  have wf: "well_formed ?M" by (simp add: well_formed_def chunk_ok_def)
  have sz: "encoded_size ?M = 45" by (simp add: encoded_size_def chunks_size_def)
  have w: "comux_manifest_write_buffer ?M 45 =
     (45, [0x63, 0x6f, 0x6d, 0x75, 0x78, 0x21, 0x21, 0x21, 0, 0, 0, 0, 1, 0, 0, 0, 1, 0, 0, 0,
           0, 0, 0, 0, 5, 0, 0, 0, 0, 0, 0, 0, 0, 0, 0, 0, 0, 0, 0, 0,
           0x68, 0x65, 0x6c, 0x6c, 0x6f])"
    by (simp add: comux_manifest_write_buffer_def comux_header_write_buffer_def
        comux_cinfo_write_buffer_def comux_cinfo_data_write_buffer_def Let_def
        COMUX_MAGIC_LEN_def COMUX_MAGIC_def u32_to_bytes_def u64_to_bytes_def)
  from codec_roundtrip [of ?M 45 0] wf sz
  obtain bs where "comux_manifest_write_buffer ?M 45 = (45, bs)"
    and "comux_manifest_read_buffer comux_manifest_init bs 0 = (COMUX_PARSE_OK, ?M, 45)"
    by auto
  with w wf show ?thesis by simp
qed


lemma data_read_buffer_loaded:
  "comux_cinfo_data_read_buffer c buff =
     (c\<lparr>data := take (min (min (unat (len c)) 524288) (length buff)) buff,
        len := of_nat (min (min (unat (len c)) 524288) (length buff))\<rparr>,
      min (min (unat (len c)) 524288) (length buff))"
  by (auto simp: comux_cinfo_data_read_buffer_def Let_def COMUX_CHUNK_DATA_MAXLEN_def
      word_less_nat_alt min_def)

text \<open>
  Claim C2.  \<open>comux_cinfo_data_read_buffer\<close> loads \<open>min (declared len, 524288, bytes
  available)\<close> bytes and sets \<open>len\<close> to the number loaded.  But the decoder
  \<open>comux_manifest_read_buffer\<close> does not return \<open>COMUX_PARSE_CONN_LEN_MISMATCH\<close> when
  that number is below the declared length: its loop records the mismatch in \<open>result\<close>
  and the function then returns \<open>COMUX_PARSE_OK\<close>.  On the 45 bytes of the manifest
  with the one chunk \<open>hello\<close> cut to 43 bytes (3 of the 5 declared payload bytes), it
  returns \<open>COMUX_PARSE_OK\<close>, no chunk, and 40 bytes read.
\<close>

theorem read_buffer_mismatch_dropped:
  "comux_cinfo_data_read_buffer c buff =
     (c\<lparr>data := take (min (min (unat (len c)) 524288) (length buff)) buff,
        len := of_nat (min (min (unat (len c)) 524288) (length buff))\<rparr>,
      min (min (unat (len c)) 524288) (length buff)) \<and>
   comux_manifest_read_buffer comux_manifest_init
     [0x63, 0x6f, 0x6d, 0x75, 0x78, 0x21, 0x21, 0x21, 0, 0, 0, 0, 1, 0, 0, 0, 1, 0, 0, 0,
      0, 0, 0, 0, 5, 0, 0, 0, 0, 0, 0, 0, 0, 0, 0, 0, 0, 0, 0, 0,
      0x68, 0x65, 0x6c] 0 =
     (COMUX_PARSE_OK,
      \<lparr>manifest_header = \<lparr>magic = COMUX_MAGIC, version = 0, num_conns = 1, num_chunks = 1\<rparr>,
       manifest_cinfo_list = []\<rparr>, 40)"
proof -
  have h: "comux_header_read_buffer comux_header_init
     [0x63, 0x6f, 0x6d, 0x75, 0x78, 0x21, 0x21, 0x21, 0, 0, 0, 0, 1, 0, 0, 0, 1, 0, 0, 0,
      0, 0, 0, 0, 5, 0, 0, 0, 0, 0, 0, 0, 0, 0, 0, 0, 0, 0, 0, 0,
      0x68, 0x65, 0x6c] 0 =
    (COMUX_PARSE_OK, \<lparr>magic = COMUX_MAGIC, version = 0, num_conns = 1, num_chunks = 1\<rparr>, 20)"
    by (simp add: comux_header_read_buffer_def comux_header_init_def COMUX_MAGIC_LEN_def
        COMUX_MAGIC_def bytes_to_u32_def Let_def)
  have c: "comux_cinfo_read_buffer comux_cinfo_init
     [0, 0, 0, 0, 5, 0, 0, 0, 0, 0, 0, 0, 0, 0, 0, 0, 0, 0, 0, 0, 0x68, 0x65, 0x6c] 20 =
    (COMUX_PARSE_OK, \<lparr>id_conn = 0, len = 5, sched = 0, flags = 0, data = [], offset = 0\<rparr>, 20)"
    by (simp add: comux_cinfo_read_buffer_def comux_cinfo_init_def bytes_to_u32_def
        bytes_to_u64_def Let_def COMUX_CHUNK_FLAGS_NONE_def)
  have l: "read_chunks_buffer
     [0x63, 0x6f, 0x6d, 0x75, 0x78, 0x21, 0x21, 0x21, 0, 0, 0, 0, 1, 0, 0, 0, 1, 0, 0, 0,
      0, 0, 0, 0, 5, 0, 0, 0, 0, 0, 0, 0, 0, 0, 0, 0, 0, 0, 0, 0,
      0x68, 0x65, 0x6c] (Suc 0) 0 COMUX_PARSE_OK 20 20 [] = (COMUX_PARSE_CONN_LEN_MISMATCH, 40, [])"
    by (simp add: read_chunks_buffer.simps [of _ _ 0] read_chunks_buffer.simps [of _ _ "Suc 0"]
        c data_read_buffer_loaded)
  show ?thesis
    by (simp add: data_read_buffer_loaded [of c buff] comux_manifest_read_buffer_def h l
        comux_manifest_init_def)
qed


section \<open>Properties of the codec on file descriptors\<close>

lemma u32_to_bytes_nonempty [simp]: "u32_to_bytes v \<noteq> []"
  by (simp add: u32_to_bytes_def)

lemma u64_to_bytes_nonempty [simp]: "u64_to_bytes v \<noteq> []"
  by (simp add: u64_to_bytes_def)

lemma COMUX_MAGIC_nonempty [simp]: "COMUX_MAGIC \<noteq> []"
  by (simp add: COMUX_MAGIC_def)

lemma magic_comux_header_init [simp]: "magic comux_header_init = COMUX_MAGIC"
  by (simp add: comux_header_init_def)

lemma read_fd_at:
  "read_fd \<lparr>file_bytes = pre @ b @ rest, file_pos = length pre\<rparr> (length b) =
     (b, \<lparr>file_bytes = pre @ b @ rest, file_pos = length pre + length b\<rparr>)"
  by (simp add: read_fd_def)

lemma comux_header_read_bytes:
  assumes "magic h = COMUX_MAGIC"
  shows "comux_header_read comux_header_init \<lparr>file_bytes = header_bytes h @ rest, file_pos = 0\<rparr> =
           (COMUX_PARSE_OK, h, \<lparr>file_bytes = header_bytes h @ rest, file_pos = 20\<rparr>)"
proof -
  have "comux_header_init\<lparr>magic := COMUX_MAGIC, version := version h, num_conns := num_conns h,
           num_chunks := num_chunks h\<rparr> = h"
    using assms by simp
  then show ?thesis
    using assms
    by (simp add: comux_header_read_def header_bytes_def COMUX_MAGIC_LEN_def Let_def
        read_fd_def bytes_to_u32_inverse)
qed

lemma comux_cinfo_read_bytes:
  "comux_cinfo_read comux_cinfo_init \<lparr>file_bytes = pre @ cinfo_bytes c @ rest, file_pos = length pre\<rparr> =
     (COMUX_PARSE_OK, c\<lparr>data := [], offset := int (length pre)\<rparr>,
      \<lparr>file_bytes = pre @ cinfo_bytes c @ rest, file_pos = length pre + 20\<rparr>)"
  by (simp add: comux_cinfo_read_def cinfo_bytes_def Let_def comux_cinfo_init_def
        read_fd_def bytes_to_u32_inverse bytes_to_u64_inverse)

lemma comux_cinfo_read_eof:
  "comux_cinfo_read c \<lparr>file_bytes = bs, file_pos = length bs\<rparr> =
     (COMUX_PARSE_EOF, c\<lparr>offset := int (length bs)\<rparr>, \<lparr>file_bytes = bs, file_pos = length bs\<rparr>)"
  by (simp add: comux_cinfo_read_def Let_def read_fd_def)

lemma take_split: "k \<le> n \<Longrightarrow> take n xs = take k xs @ take (n - k) (drop k xs)"
  by (metis le_add_diff_inverse take_add)

lemma data_read_loop_result:
  assumes "cap \<le> t \<or> 0 < bs"
  shows "data_read_loop cap bs c fd t =
     (c\<lparr>data := data c @ take (cap - t) (drop (file_pos fd) (file_bytes fd)),
        len := len c + of_nat (length (take (cap - t) (drop (file_pos fd) (file_bytes fd))))\<rparr>,
      t + length (take (cap - t) (drop (file_pos fd) (file_bytes fd))),
      fd\<lparr>file_pos := file_pos fd + length (take (cap - t) (drop (file_pos fd) (file_bytes fd)))\<rparr>)"
  using assms
proof (induction cap bs c fd t rule: data_read_loop.induct)
  case (1 cap buff_size cinfo fd total_rcount)
  define R where "R = drop (file_pos fd) (file_bytes fd)"
  define buff where "buff = take (min (cap - total_rcount) buff_size) R"
  define fd1 where "fd1 = fd\<lparr>file_pos := file_pos fd + length buff\<rparr>"
  have r: "read_fd fd (min (cap - total_rcount) buff_size) = (buff, fd1)"
    by (simp add: read_fd_def buff_def fd1_def R_def)
  show ?case
  proof (cases "length buff > 0 \<and> total_rcount < cap")
    case True
    define c1 where "c1 = cinfo\<lparr>data := data cinfo @ buff, len := len cinfo + of_nat (length buff)\<rparr>"
    have k: "length buff \<le> cap - total_rcount" by (simp add: buff_def)
    have tk: "take (length buff) R = buff" by (simp add: buff_def min_def)
    have R1: "drop (file_pos fd1) (file_bytes fd1) = drop (length buff) R"
      by (simp add: fd1_def R_def add.commute)
    have sp: "take (cap - total_rcount) R =
              buff @ take (cap - (total_rcount + length buff)) (drop (length buff) R)"
      using take_split [OF k, of R] tk by simp
    have "data_read_loop cap buff_size cinfo fd total_rcount =
          data_read_loop cap buff_size c1 fd1 (total_rcount + length buff)"
      using r True by (subst data_read_loop.simps) (simp add: Let_def c1_def)
    also have "\<dots> = (c1\<lparr>data := data c1 @ take (cap - (total_rcount + length buff)) (drop (file_pos fd1) (file_bytes fd1)),
        len := len c1 + of_nat (length (take (cap - (total_rcount + length buff)) (drop (file_pos fd1) (file_bytes fd1))))\<rparr>,
      (total_rcount + length buff) + length (take (cap - (total_rcount + length buff)) (drop (file_pos fd1) (file_bytes fd1))),
      fd1\<lparr>file_pos := file_pos fd1 + length (take (cap - (total_rcount + length buff)) (drop (file_pos fd1) (file_bytes fd1)))\<rparr>)"
      using "1.IH" [OF r [symmetric] refl] True "1.prems" unfolding c1_def by simp
    also have "\<dots> = (cinfo\<lparr>data := data cinfo @ take (cap - total_rcount) R,
        len := len cinfo + of_nat (length (take (cap - total_rcount) R))\<rparr>,
      total_rcount + length (take (cap - total_rcount) R),
      fd\<lparr>file_pos := file_pos fd + length (take (cap - total_rcount) R)\<rparr>)"
      unfolding R1 sp by (simp add: c1_def fd1_def)
    finally show ?thesis unfolding R_def .
  next
    case False
    have e: "take (cap - total_rcount) R = []"
    proof (cases "total_rcount < cap")
      case True
      then have "0 < min (cap - total_rcount) buff_size" using "1.prems" by simp
      moreover have "buff = []" using False True by simp
      ultimately have "R = []" unfolding buff_def by (metis take_eq_Nil not_less_zero)
      then show ?thesis by simp
    next
      case False
      then show ?thesis by simp
    qed
    have "cap - total_rcount = 0 \<or> R = []" using e by (simp add: take_eq_Nil)
    then have "buff = []" unfolding buff_def by auto
    then have "fd1 = fd" by (simp add: fd1_def)
    have "data_read_loop cap buff_size cinfo fd total_rcount = (cinfo, total_rcount, fd)"
      using r False \<open>fd1 = fd\<close> by (subst data_read_loop.simps) (auto simp: Let_def)
    then show ?thesis unfolding R_def [symmetric] e by simp
  qed
qed


lemma comux_cinfo_data_read_result:
  "comux_cinfo_data_read c fd =
     (let n = length (take (min (unat (len c)) 524288) (drop (file_pos fd) (file_bytes fd)))
      in (c\<lparr>data := take (min (unat (len c)) 524288) (drop (file_pos fd) (file_bytes fd)),
            len := of_nat n\<rparr>, n, fd\<lparr>file_pos := file_pos fd + n\<rparr>))"
proof -
  define cap where "cap = unat (if len c > COMUX_CHUNK_DATA_MAXLEN then COMUX_CHUNK_DATA_MAXLEN
                      else len c)"
  have cap: "cap = min (unat (len c)) 524288"
    by (auto simp: cap_def COMUX_CHUNK_DATA_MAXLEN_def word_less_nat_alt)
  have "cap \<le> 0 \<or> 0 < (if cap > 2048 then 2048 else cap)" by auto
  from data_read_loop_result [OF this, of "c\<lparr>data := []\<rparr>" fd]
  show ?thesis
    unfolding comux_cinfo_data_read_def cap_def [symmetric] Let_def
    by (simp add: cap)
qed

lemma comux_cinfo_data_read_bytes:
  assumes "chunk_ok c"
  shows "comux_cinfo_data_read (c\<lparr>data := d, offset := p\<rparr>)
           \<lparr>file_bytes = pre @ data c @ rest, file_pos = length pre\<rparr> =
         (c\<lparr>offset := p\<rparr>, length (data c),
          \<lparr>file_bytes = pre @ data c @ rest, file_pos = length pre + length (data c)\<rparr>)"
  using assms chunk_ok_len [OF assms]
  by (simp add: comux_cinfo_data_read_result chunk_ok_def Let_def)

lemma manifest_read_loop_bytes:
  assumes "\<forall>c\<in>set cs. chunk_ok c"
  shows "manifest_read_loop \<lparr>file_bytes = pre @ concat (map chunk_bytes cs), file_pos = length pre\<rparr>
           COMUX_PARSE_OK acc =
         (COMUX_PARSE_EOF, acc @ place (length pre) cs,
          \<lparr>file_bytes = pre @ concat (map chunk_bytes cs),
           file_pos = length pre + length (concat (map chunk_bytes cs))\<rparr>)"
  using assms
proof (induction cs arbitrary: pre acc)
  case Nil
  show ?case
    using comux_cinfo_read_eof [of comux_cinfo_init pre]
    by (simp add: manifest_read_loop.simps [of _ COMUX_PARSE_OK]
        manifest_read_loop.simps [of _ COMUX_PARSE_EOF])
next
  case (Cons c cs)
  define B where "B = pre @ concat (map chunk_bytes (c # cs))"
  have ok: "chunk_ok c" using Cons.prems by simp
  have len: "unat (len c) = length (data c)" using ok by (simp add: chunk_ok_def)
  have hd: "comux_cinfo_read comux_cinfo_init \<lparr>file_bytes = B, file_pos = length pre\<rparr> =
     (COMUX_PARSE_OK, c\<lparr>data := [], offset := int (length pre)\<rparr>,
      \<lparr>file_bytes = B, file_pos = length pre + 20\<rparr>)"
    using comux_cinfo_read_bytes [of pre c "data c @ concat (map chunk_bytes cs)"]
    by (simp add: B_def chunk_bytes_def [of c])
  have dt: "comux_cinfo_data_read (c\<lparr>data := [], offset := int (length pre)\<rparr>)
              \<lparr>file_bytes = B, file_pos = length pre + 20\<rparr> =
            (c\<lparr>offset := int (length pre)\<rparr>, length (data c),
             \<lparr>file_bytes = B, file_pos = length pre + 20 + length (data c)\<rparr>)"
    using comux_cinfo_data_read_bytes [OF ok, where d = "[]" and p = "int (length pre)"
        and pre = "pre @ cinfo_bytes c" and rest = "concat (map chunk_bytes cs)"]
    by (simp add: B_def chunk_bytes_def [of c])
  have step: "manifest_read_loop \<lparr>file_bytes = B, file_pos = length pre\<rparr> COMUX_PARSE_OK acc =
              manifest_read_loop \<lparr>file_bytes = B, file_pos = length pre + 20 + length (data c)\<rparr>
                COMUX_PARSE_OK (acc @ [c\<lparr>offset := int (length pre)\<rparr>])"
    by (subst manifest_read_loop.simps) (simp add: hd dt len Let_def)
  have B': "B = (pre @ chunk_bytes c) @ concat (map chunk_bytes cs)"
    by (simp add: B_def)
  have "manifest_read_loop
          \<lparr>file_bytes = (pre @ chunk_bytes c) @ concat (map chunk_bytes cs),
           file_pos = length (pre @ chunk_bytes c)\<rparr> COMUX_PARSE_OK
          (acc @ [c\<lparr>offset := int (length pre)\<rparr>]) =
        (COMUX_PARSE_EOF,
         (acc @ [c\<lparr>offset := int (length pre)\<rparr>]) @ place (length (pre @ chunk_bytes c)) cs,
         \<lparr>file_bytes = (pre @ chunk_bytes c) @ concat (map chunk_bytes cs),
          file_pos = length (pre @ chunk_bytes c) + length (concat (map chunk_bytes cs))\<rparr>)"
    by (rule Cons.IH) (use Cons.prems in auto)
  then have "manifest_read_loop \<lparr>file_bytes = B, file_pos = length pre + 20 + length (data c)\<rparr>
                COMUX_PARSE_OK (acc @ [c\<lparr>offset := int (length pre)\<rparr>]) =
        (COMUX_PARSE_EOF, acc @ place (length pre) (c # cs),
         \<lparr>file_bytes = B, file_pos = length pre + length (concat (map chunk_bytes (c # cs)))\<rparr>)"
    unfolding B' by (simp add: length_chunk_bytes add.assoc)
  then show ?case using step unfolding B_def by simp
qed

text \<open>
  Claim C8.  Take a file that holds a header with the right magic followed by any
  number of complete chunk records (each declaring the length of its payload, at most
  524288) and then ends.  \<open>comux_manifest_read\<close> returns \<open>COMUX_PARSE_OK\<close> and a
  manifest with this header and exactly these chunks, in order, each with the offset
  of its record.  Nothing relates the number of chunks to the \<open>num_chunks\<close> of the
  header: the decoder does not compare them.
\<close>

theorem manifest_read_clean_end:
  assumes "magic h = COMUX_MAGIC" and "\<forall>c\<in>set cs. chunk_ok c"
  shows "comux_manifest_read comux_manifest_init
           \<lparr>file_bytes = header_bytes h @ concat (map chunk_bytes cs), file_pos = 0\<rparr> =
         (COMUX_PARSE_OK, \<lparr>manifest_header = h, manifest_cinfo_list = place 20 cs\<rparr>,
          \<lparr>file_bytes = header_bytes h @ concat (map chunk_bytes cs),
           file_pos = length (header_bytes h @ concat (map chunk_bytes cs))\<rparr>)"
proof -
  have lh: "length (header_bytes h) = 20" using assms(1) by (simp add: length_header_bytes)
  have l: "manifest_read_loop
             \<lparr>file_bytes = header_bytes h @ concat (map chunk_bytes cs), file_pos = 20\<rparr>
             COMUX_PARSE_OK [] =
           (COMUX_PARSE_EOF, place 20 cs,
            \<lparr>file_bytes = header_bytes h @ concat (map chunk_bytes cs),
             file_pos = 20 + length (concat (map chunk_bytes cs))\<rparr>)"
    using manifest_read_loop_bytes [OF assms(2), of "header_bytes h" "[]"] by (simp add: lh)
  show ?thesis
    by (simp add: comux_manifest_read_def comux_manifest_init_def
        comux_header_read_bytes [OF assms(1)] l lh)
qed


theorem manifest_read_clean_end_witness:
  "magic \<lparr>magic = COMUX_MAGIC, version = 0, num_conns = 1, num_chunks = 3\<rparr> = COMUX_MAGIC \<and>
   chunk_ok \<lparr>id_conn = 0, len = 5, sched = 0, flags = 0,
             data = [0x68, 0x65, 0x6c, 0x6c, 0x6f], offset = 0\<rparr> \<and>
   comux_manifest_read comux_manifest_init
     \<lparr>file_bytes =
        [0x63, 0x6f, 0x6d, 0x75, 0x78, 0x21, 0x21, 0x21, 0, 0, 0, 0, 1, 0, 0, 0, 3, 0, 0, 0,
         0, 0, 0, 0, 5, 0, 0, 0, 0, 0, 0, 0, 0, 0, 0, 0, 0, 0, 0, 0,
         0x68, 0x65, 0x6c, 0x6c, 0x6f],
      file_pos = 0\<rparr> =
     (COMUX_PARSE_OK,
      \<lparr>manifest_header = \<lparr>magic = COMUX_MAGIC, version = 0, num_conns = 1, num_chunks = 3\<rparr>,
       manifest_cinfo_list =
         [\<lparr>id_conn = 0, len = 5, sched = 0, flags = 0,
           data = [0x68, 0x65, 0x6c, 0x6c, 0x6f], offset = 20\<rparr>]\<rparr>,
      \<lparr>file_bytes =
        [0x63, 0x6f, 0x6d, 0x75, 0x78, 0x21, 0x21, 0x21, 0, 0, 0, 0, 1, 0, 0, 0, 3, 0, 0, 0,
         0, 0, 0, 0, 5, 0, 0, 0, 0, 0, 0, 0, 0, 0, 0, 0, 0, 0, 0, 0,
         0x68, 0x65, 0x6c, 0x6c, 0x6f],
       file_pos = 45\<rparr>)"
proof -
  let ?h = "\<lparr>magic = COMUX_MAGIC, version = 0, num_conns = 1, num_chunks = 3\<rparr>"
  let ?c = "\<lparr>id_conn = 0, len = 5, sched = 0, flags = 0,
             data = [0x68, 0x65, 0x6c, 0x6c, 0x6f], offset = 0\<rparr>"
  have m: "magic ?h = COMUX_MAGIC" by simp
  have ok: "\<forall>c\<in>set [?c]. chunk_ok c" by (simp add: chunk_ok_def)
  have b: "header_bytes ?h @ concat (map chunk_bytes [?c]) =
        [0x63, 0x6f, 0x6d, 0x75, 0x78, 0x21, 0x21, 0x21, 0, 0, 0, 0, 1, 0, 0, 0, 3, 0, 0, 0,
         0, 0, 0, 0, 5, 0, 0, 0, 0, 0, 0, 0, 0, 0, 0, 0, 0, 0, 0, 0,
         0x68, 0x65, 0x6c, 0x6c, 0x6f]"
    by (simp add: header_bytes_def chunk_bytes_def cinfo_bytes_def COMUX_MAGIC_def
        u32_to_bytes_def u64_to_bytes_def)
  show ?thesis
    using manifest_read_clean_end [OF m ok] ok unfolding b by simp
qed


section \<open>Properties of rounding\<close>

lemma rne_of_int [simp]: "rne (of_int n) = n"
  by (simp add: rne_def)

lemma rne_bounds: "of_int (rne x) \<le> x + 1 / 2" "x - 1 / 2 \<le> of_int (rne x)"
proof -
  define f where "f = \<lfloor>x\<rfloor>"
  have f: "of_int f \<le> x" "x < of_int f + 1" unfolding f_def by linarith+
  have r: "rne x = (if x - of_int f < 1 / 2 then f else if 1 / 2 < x - of_int f then f + 1
                    else if even f then f else f + 1)"
    by (simp add: rne_def Let_def f_def)
  show "of_int (rne x) \<le> x + 1 / 2" using f unfolding r by (auto split: if_splits)
  show "x - 1 / 2 \<le> of_int (rne x)" using f unfolding r by (auto split: if_splits)
qed

lemma rne_mono: "x \<le> y \<Longrightarrow> rne x \<le> rne y"
proof -
  assume xy: "x \<le> y"
  have fl: "\<lfloor>x\<rfloor> \<le> \<lfloor>y\<rfloor>" using xy by (rule floor_mono)
  show ?thesis
  proof (cases "\<lfloor>x\<rfloor> = \<lfloor>y\<rfloor>")
    case True
    then have "x - of_int \<lfloor>x\<rfloor> \<le> y - of_int \<lfloor>y\<rfloor>" using xy by simp
    then show ?thesis using True by (auto simp: rne_def Let_def)
  next
    case False
    then have "\<lfloor>x\<rfloor> + 1 \<le> \<lfloor>y\<rfloor>" using fl by simp
    moreover have "rne x \<le> \<lfloor>x\<rfloor> + 1" by (auto simp: rne_def Let_def)
    moreover have "\<lfloor>y\<rfloor> \<le> rne y" by (auto simp: rne_def Let_def)
    ultimately show ?thesis by linarith
  qed
qed

text \<open>The exponent brackets its argument.\<close>

lemma log2_ge1_bounds:
  "1 \<le> x \<Longrightarrow> 2 ^ log2_ge1 x \<le> x \<and> x < 2 ^ Suc (log2_ge1 x)"
proof (induction x rule: log2_ge1.induct)
  case (1 x)
  show ?case
  proof (cases "x < 2")
    case True
    then show ?thesis using "1.prems" by (simp add: log2_ge1.simps [of x])
  next
    case False
    then have "1 \<le> x / 2" by simp
    from "1.IH" [OF False this] show ?thesis
      using False by (simp add: log2_ge1.simps [of x])
  qed
qed

lemma log2_lt1_bounds:
  "0 < x \<Longrightarrow> x < 1 \<Longrightarrow> 1 \<le> x * 2 ^ log2_lt1 x \<and> x * 2 ^ log2_lt1 x < 2"
proof (induction x rule: log2_lt1.induct)
  case (1 x)
  have n: "\<not> (x \<le> 0 \<or> 1 \<le> x)" using "1.prems" by simp
  show ?case
  proof (cases "x * 2 < 1")
    case True
    have "0 < x * 2" using "1.prems" by simp
    from "1.IH" [OF n this True] show ?thesis
      using n by (simp add: log2_lt1.simps [of x] mult.assoc)
  next
    case False
    then have "log2_lt1 (x * 2) = 0" by (simp add: log2_lt1.simps [of "x * 2"])
    then show ?thesis
      using n False "1.prems" by (simp add: log2_lt1.simps [of x])
  qed
qed

lemma exponent_bounds:
  assumes "0 < x"
  shows "2 powi exponent x \<le> x" and "x < 2 powi (exponent x + 1)"
proof -
  show "2 powi exponent x \<le> x"
  proof (cases "1 \<le> x")
    case True
    then show ?thesis using log2_ge1_bounds [OF True] by (simp add: exponent_def)
  next
    case False
    then have "1 \<le> x * 2 ^ log2_lt1 x" using log2_lt1_bounds [of x] assms by simp
    then show ?thesis
      using False by (simp add: exponent_def power_int_minus field_simps)
  qed
  show "x < 2 powi (exponent x + 1)"
  proof (cases "1 \<le> x")
    case True
    have "int (log2_ge1 x) + 1 = int (Suc (log2_ge1 x))" by simp
    then show ?thesis
      using log2_ge1_bounds [OF True] True
      by (simp only: exponent_def if_True power_int_of_nat)
  next
    case False
    then have b: "x * 2 ^ log2_lt1 x < 2" using log2_lt1_bounds [of x] assms by simp
    have "2 powi (1 - int (log2_lt1 x)) = (2 :: rat) powi 1 / 2 powi int (log2_lt1 x)"
      by (rule power_int_diff) simp
    then have p: "2 powi (1 - int (log2_lt1 x)) = (2 :: rat) / 2 ^ log2_lt1 x"
      by simp
    have "x < 2 / 2 ^ log2_lt1 x"
      using b by (simp add: field_simps)
    then have "x < 2 powi (1 - int (log2_lt1 x))" by (simp only: p)
    moreover have "exponent x + 1 = 1 - int (log2_lt1 x)"
      using False by (simp add: exponent_def)
    ultimately show ?thesis by simp
  qed
qed

lemma pow2_less_cancel: "(2 :: rat) powi a < 2 powi b \<Longrightarrow> a < b"
proof (rule ccontr)
  assume l: "(2 :: rat) powi a < 2 powi b" and "\<not> a < b"
  then have "b \<le> a" by simp
  then have "(2 :: rat) powi b \<le> 2 powi a" by (rule power_int_increasing) simp
  then show False using l by simp
qed

lemma exponent_unique:
  assumes "2 powi e \<le> x" "x < 2 powi (e + 1)"
  shows "exponent x = e"
proof -
  have x: "0 < x" using assms(1) zero_less_power_int [of "2 :: rat" e] by linarith
  note b = exponent_bounds [OF x]
  have "(2 :: rat) powi e < 2 powi (exponent x + 1)" using assms(1) b(2) by linarith
  then have "e < exponent x + 1" by (rule pow2_less_cancel)
  moreover have "(2 :: rat) powi exponent x < 2 powi (e + 1)" using assms(2) b(1) by linarith
  then have "exponent x < e + 1" by (rule pow2_less_cancel)
  ultimately show ?thesis by simp
qed

lemma exponent_mono:
  assumes "0 < x" "x \<le> y"
  shows "exponent x \<le> exponent y"
proof -
  have "(2 :: rat) powi exponent x < 2 powi (exponent y + 1)"
    using exponent_bounds(1) [OF assms(1)] exponent_bounds(2) [of y] assms by linarith
  then have "exponent x < exponent y + 1" by (rule pow2_less_cancel)
  then show ?thesis by simp
qed


text \<open>Rounding is monotone, and it leaves a number of the format as it is.\<close>

lemma mantissa_bounds:
  assumes "0 < x"
  shows "2 ^ q \<le> x / 2 powi (exponent x - int q)"
    and "x / 2 powi (exponent x - int q) < 2 ^ Suc q"
proof -
  have u: "2 powi (exponent x - int q) = (2 :: rat) powi exponent x / 2 ^ q"
    by (simp add: power_int_diff)
  note b = exponent_bounds [OF assms(1)]
  have pos: "0 < (2 :: rat) powi exponent x" by simp
  have e: "x / 2 powi (exponent x - int q) = x / 2 powi exponent x * 2 ^ q"
    by (simp add: u)
  have l: "1 \<le> x / 2 powi exponent x" using b(1) pos by (simp add: field_simps)
  have h: "x / 2 powi exponent x < 2"
    using b(2) pos by (simp add: field_simps power_int_add)
  have "1 * 2 ^ q \<le> x / 2 powi exponent x * 2 ^ q"
    using l by (intro mult_right_mono) simp_all
  then show "2 ^ q \<le> x / 2 powi (exponent x - int q)" by (simp only: e mult_1)
  have "x / 2 powi exponent x * 2 ^ q < 2 * 2 ^ q"
    using h by (intro mult_strict_right_mono) simp_all
  then show "x / 2 powi (exponent x - int q) < 2 ^ Suc q" by (simp only: e power_Suc)
qed

lemma round_binary_bounds:
  assumes "0 < x"
  shows "2 powi exponent x \<le> round_binary (Suc q) x"
    and "round_binary (Suc q) x \<le> 2 powi (exponent x + 1)"
proof -
  define u :: rat where "u = 2 powi (exponent x - int q)"
  have u: "0 < u" by (simp add: u_def)
  have r: "round_binary (Suc q) x = of_int (rne (x / u)) * u"
    using assms by (simp add: round_binary_def u_def Let_def)
  have "rne (of_int (2 ^ q)) \<le> rne (x / u)"
    using mantissa_bounds(1) [OF assms, of q] unfolding u_def by (intro rne_mono) simp
  then have "(of_int (2 ^ q) :: rat) \<le> of_int (rne (x / u))"
    by (simp only: rne_of_int of_int_le_iff)
  then have "(2 :: rat) ^ q \<le> of_int (rne (x / u))"
    by simp
  then have "2 ^ q * u \<le> of_int (rne (x / u)) * u"
    using u by (intro mult_right_mono) simp_all
  moreover have "2 ^ q * u = 2 powi exponent x"
    by (simp add: u_def power_int_diff)
  ultimately show "2 powi exponent x \<le> round_binary (Suc q) x" by (simp only: r)
  have "rne (x / u) \<le> rne (of_int (2 ^ Suc q))"
    using mantissa_bounds(2) [OF assms, of q] unfolding u_def by (intro rne_mono) simp
  then have "of_int (rne (x / u)) \<le> (of_int (2 ^ Suc q) :: rat)"
    by (simp only: rne_of_int of_int_le_iff)
  then have "of_int (rne (x / u)) \<le> (2 :: rat) ^ Suc q"
    by simp
  then have "of_int (rne (x / u)) * u \<le> 2 ^ Suc q * u"
    using u by (intro mult_right_mono) simp_all
  moreover have "2 ^ Suc q * u = 2 powi (exponent x + 1)"
    by (simp add: u_def power_int_diff power_int_add)
  ultimately show "round_binary (Suc q) x \<le> 2 powi (exponent x + 1)" by (simp only: r)
qed

lemma round_binary_mono:
  assumes "0 < x" "x \<le> y"
  shows "round_binary (Suc q) x \<le> round_binary (Suc q) y"
proof -
  have y: "0 < y" using assms by simp
  have le: "exponent x \<le> exponent y" using assms by (rule exponent_mono)
  show ?thesis
  proof (cases "exponent x = exponent y")
    case True
    define u :: rat where "u = 2 powi (exponent y - int q)"
    have u: "0 < u" by (simp add: u_def)
    have "x / u \<le> y / u" using assms(2) u by (simp add: divide_right_mono)
    then have "rne (x / u) \<le> rne (y / u)" by (rule rne_mono)
    then have "of_int (rne (x / u)) * u \<le> of_int (rne (y / u)) * u"
      using u by (intro mult_right_mono) simp_all
    then show ?thesis
      using assms(1) y True by (simp add: round_binary_def u_def Let_def)
  next
    case False
    then have "exponent x + 1 \<le> exponent y" using le by simp
    then have "(2 :: rat) powi (exponent x + 1) \<le> 2 powi exponent y"
      by (rule power_int_increasing) simp
    then show ?thesis
      using round_binary_bounds(2) [OF assms(1), of q] round_binary_bounds(1) [OF y, of q]
      by linarith
  qed
qed

lemma round32_mono: "0 < x \<Longrightarrow> x \<le> y \<Longrightarrow> round32 x \<le> round32 y"
  unfolding round32_def
  using round_binary_mono [of x y 23] by simp

text \<open>A positive integer below \<open>2^24\<close> is a float.\<close>

lemma round32_of_int:
  assumes "0 < n" "n < 2 ^ 24"
  shows "round32 (of_int n) = of_int n"
proof -
  define e where "e = exponent (of_int n)"
  have x: "(0 :: rat) < of_int n" using assms(1) by simp
  have "(2 :: rat) powi e \<le> of_int n" unfolding e_def using x by (rule exponent_bounds)
  also have "(of_int n :: rat) < 2 powi 24"
  proof -
    have "(of_int n :: rat) < of_int (2 ^ 24)" using assms(2) by (simp only: of_int_less_iff)
    then show ?thesis by simp
  qed
  finally have "e < 24" by (rule pow2_less_cancel)
  define k where "k = nat (23 - e)"
  have k: "23 - e = int k" using \<open>e < 24\<close> by (simp add: k_def)
  have "e - 23 = - int k" using k by linarith
  then have "(2 :: rat) powi (e - 23) = 2 powi (- int k)" by (simp only:)
  then have u: "(2 :: rat) powi (e - 23) = 1 / 2 ^ k"
    by (simp add: power_int_minus field_simps)
  have "of_int n / (2 :: rat) powi (e - 23) = of_int (n * 2 ^ k)"
    by (simp add: u)
  then have "rne (of_int n / 2 powi (e - 23)) = n * 2 ^ k"
    by (simp only: rne_of_int)
  then have "of_int (rne (of_int n / 2 powi (e - 23))) * (2 :: rat) powi (e - 23) = of_int n"
    by (simp add: u)
  then show ?thesis
    using x assms(1) by (simp add: round32_def round_binary_def e_def Let_def)
qed

section \<open>Properties of the trimmer's feedback step\<close>

text \<open>
  The constants: \<open>0.25\<close> is a float and a double; the float \<open>ratio_threshold\<close> is
  \<open>13421773 / 2^27\<close>, a little above one tenth; the floats just below the two.
\<close>

lemma round64_quarter: "round64 (1 / 4) = 1 / 4"
  by code_simp

lemma round32_quarter: "round32 (1 / 4) = 1 / 4"
  by code_simp

lemma ratio_threshold_value: "round32 (round64 (1 / 10)) = 13421773 / 134217728"
  by code_simp

lemma round32_tenth: "round32 (1 / 10) = 13421773 / 134217728"
  by code_simp

lemma round32_below_quarter: "round32 (16777215 / 67108864) = 16777215 / 67108864"
  by code_simp

lemma round32_below_threshold: "round32 (3355443 / 33554432) = 3355443 / 33554432"
  by code_simp

text \<open>
  For counts below \<open>2^24\<close> the two comparisons of floats come out as the exact
  comparisons of the quotients with one quarter and one tenth.
\<close>

lemma progress_ge_quarter:
  assumes "0 < a" "0 < s" "s < 2 ^ 24"
  shows "(1 / 4 \<le> round32 (of_int a / of_int s)) = (s \<le> 4 * a)"
proof (cases "s \<le> 4 * a")
  case True
  then have "(of_int s :: rat) \<le> of_int (4 * a)" by (simp only: of_int_le_iff)
  then have "(1 / 4 :: rat) \<le> of_int a / of_int s"
    using assms(2) by (simp add: field_simps)
  then have "round32 (1 / 4) \<le> round32 (of_int a / of_int s)"
    by (intro round32_mono) simp_all
  then show ?thesis using True by (simp add: round32_quarter)
next
  case False
  then have "4 * a + 1 \<le> s" by simp
  then have "(of_int (4 * a + 1) :: rat) \<le> of_int s" by (simp only: of_int_le_iff)
  then have 1: "(of_int a / of_int s :: rat) \<le> 1 / 4 - 1 / (4 * of_int s)"
    using assms(2) by (simp add: field_simps)
  have "(of_int s :: rat) \<le> of_int (2 ^ 24)" using assms(3) by (simp only: of_int_le_iff)
  then have "(of_int s :: rat) \<le> 16777216" by simp
  then have "1 / (4 * 16777216) \<le> 1 / (4 * (of_int s :: rat))"
    using assms(2) by (intro divide_left_mono) simp_all
  moreover have "1 / 4 - 1 / (4 * 16777216) = (16777215 / 67108864 :: rat)" by simp
  ultimately have "(of_int a / of_int s :: rat) \<le> 16777215 / 67108864"
    using 1 by linarith
  moreover have "(0 :: rat) < of_int a / of_int s" using assms by simp
  ultimately have "round32 (of_int a / of_int s) \<le> round32 (16777215 / 67108864)"
    by (intro round32_mono)
  then have "round32 (of_int a / of_int s) < 1 / 4"
    by (simp add: round32_below_quarter)
  then show ?thesis using False by simp
qed

lemma ratio_less_threshold:
  assumes "0 \<le> k" "0 < c" "c < 2 ^ 24"
  shows "(round32 (of_int k / of_int c) < 13421773 / 134217728) = (10 * k < c)"
proof (cases "k = 0")
  case True
  then show ?thesis using assms by (simp add: round32_def round_binary_def)
next
  case False
  then have k: "0 < k" using assms(1) by simp
  show ?thesis
  proof (cases "10 * k < c")
    case True
    then have "10 * k + 1 \<le> c" by simp
    then have "(of_int (10 * k + 1) :: rat) \<le> of_int c" by (simp only: of_int_le_iff)
    then have 1: "(of_int k / of_int c :: rat) \<le> 1 / 10 - 1 / (10 * of_int c)"
      using assms(2) by (simp add: field_simps)
    have "(of_int c :: rat) \<le> of_int (2 ^ 24)" using assms(3) by (simp only: of_int_le_iff)
    then have "(of_int c :: rat) \<le> 16777216" by simp
    then have "1 / (10 * 16777216) \<le> 1 / (10 * (of_int c :: rat))"
      using assms(2) by (intro divide_left_mono) simp_all
    moreover have "1 / 10 - 1 / (10 * 16777216) = (3355443 / 33554432 :: rat)" by simp
    ultimately have "(of_int k / of_int c :: rat) \<le> 3355443 / 33554432"
      using 1 by linarith
    moreover have "(0 :: rat) < of_int k / of_int c" using k assms by simp
    ultimately have "round32 (of_int k / of_int c) \<le> round32 (3355443 / 33554432)"
      by (intro round32_mono)
    then have "round32 (of_int k / of_int c) < 13421773 / 134217728"
      by (simp add: round32_below_threshold)
    then show ?thesis using True by simp
  next
    case False
    then have "c \<le> 10 * k" by simp
    then have "(of_int c :: rat) \<le> of_int (10 * k)" by (simp only: of_int_le_iff)
    then have "(1 / 10 :: rat) \<le> of_int k / of_int c"
      using assms(2) by (simp add: field_simps)
    then have "round32 (1 / 10) \<le> round32 (of_int k / of_int c)"
      by (intro round32_mono) simp_all
    then show ?thesis using False by (simp add: round32_tenth)
  qed
qed

lemma float_of_int_exact: "0 \<le> n \<Longrightarrow> n < 2 ^ 24 \<Longrightarrow> float_of_int n = of_int n"
proof (cases "n = 0")
  case True
  then show ?thesis by (simp add: float_of_int_def round32_def round_binary_def)
next
  case False
  assume "0 \<le> n" "n < 2 ^ 24"
  then show ?thesis using False round32_of_int [of n] by (simp add: float_of_int_def)
qed

text \<open>
  Claim C7, as amended.  Let \<open>c\<close> be the number of steps completed, the step just
  reported included, \<open>k\<close> the number of those that succeeded and \<open>s\<close> the number
  \<open>trim_steps\<close> of steps, the maximum step index.  For counts below \<open>2^24\<close>,
  \<open>afl_custom_post_trim\<close> returns \<open>s\<close> when at least \<open>min (100, s / 4)\<close> steps have
  completed and \<open>k / c\<close> is below one tenth, and it returns the current step index
  \<open>c\<close> in every other case.  So, except at the normal final step, where \<open>c\<close> is \<open>s\<close>,
  it returns the maximum step index if and only if that condition holds.
\<close>

theorem post_trim_bail_out:
  assumes "0 < trim_steps mut" and "trim_steps mut < 2 ^ 24"
    and "0 \<le> trim_count mut" and "trim_count mut + 1 < 2 ^ 24"
    and "0 \<le> trim_success_count mut" and "trim_success_count mut \<le> trim_count mut"
  shows "(let s = trim_steps mut;
              c = trim_count mut + 1;
              k = trim_success_count mut + (if success \<noteq> 0 then 1 else 0);
              bail = (min 100 (of_int s / 4) \<le> (of_int c :: rat) \<and>
                      (of_int k / of_int c :: rat) < 1 / 10)
          in snd (afl_custom_post_trim mut success) = (if bail then s else c) \<and>
             (c \<noteq> s \<longrightarrow> (snd (afl_custom_post_trim mut success) = s) = bail))"
proof -
  define s where "s = trim_steps mut"
  define c where "c = trim_count mut + 1"
  define k where "k = trim_success_count mut + (if success \<noteq> 0 then 1 else 0)"
  define bail where "bail = (min 100 (of_int s / 4) \<le> (of_int c :: rat) \<and>
                      (of_int k / of_int c :: rat) < 1 / 10)"
  have s: "0 < s" "s < 2 ^ 24" using assms by (simp_all add: s_def)
  have c: "0 < c" "c < 2 ^ 24" using assms by (simp_all add: c_def)
  have k: "0 \<le> k" "k < 2 ^ 24" using assms by (auto simp: k_def)
  have fs: "float_of_int s = of_int s" using s by (intro float_of_int_exact) simp_all
  have fc: "float_of_int c = of_int c" using c by (intro float_of_int_exact) simp_all
  have fk: "float_of_int k = of_int k" using k by (intro float_of_int_exact) simp_all
  have progress: "float_le (Finite (round64 (1 / 4))) (float_div (float_of_int c) (float_of_int s))
                    = (s \<le> 4 * c)"
    using progress_ge_quarter [OF c(1) s] s(1)
    by (simp add: fs fc float_div_def round64_quarter)
  have ratio: "float_less (float_div (float_of_int k) (float_of_int c))
                 (Finite (round32 (round64 (1 / 10)))) = (10 * k < c)"
    using ratio_less_threshold [OF k(1) c] c(1)
    by (simp add: fk fc float_div_def ratio_threshold_value)
  have "(min 100 (of_int s / 4) \<le> (of_int c :: rat)) = (100 \<le> c \<or> s \<le> 4 * c)"
  proof -
    have "((100 :: rat) \<le> of_int c) = (100 \<le> c)"
      using of_int_le_iff [of 100 c, where 'a = rat] by simp
    moreover have "((of_int s :: rat) / 4 \<le> of_int c) = (s \<le> 4 * c)"
      using of_int_le_iff [of s "4 * c", where 'a = rat] by (simp add: field_simps)
    ultimately show ?thesis by (simp add: min_le_iff_disj)
  qed
  moreover have "((of_int k / of_int c :: rat) < 1 / 10) = (10 * k < c)"
    using c(1) of_int_less_iff [of "10 * k" c, where 'a = rat] by (simp add: field_simps)
  ultimately have bail: "bail = ((100 \<le> c \<or> s \<le> 4 * c) \<and> 10 * k < c)"
    by (simp add: bail_def)
  have "snd (afl_custom_post_trim mut success) =
          (if (100 \<le> c \<or>
               float_le (Finite (round64 (1 / 4))) (float_div (float_of_int c) (float_of_int s))) \<and>
              float_less (float_div (float_of_int k) (float_of_int c))
                (Finite (round32 (round64 (1 / 10))))
           then s else c)"
    by (auto simp add: afl_custom_post_trim_def Let_def s_def c_def k_def)
  then have r: "snd (afl_custom_post_trim mut success) = (if bail then s else c)"
    by (simp only: progress ratio bail)
  then have "c \<noteq> s \<longrightarrow> (snd (afl_custom_post_trim mut success) = s) = bail"
    by simp
  then show ?thesis
    using r unfolding Let_def s_def [symmetric] c_def [symmetric] k_def [symmetric]
      bail_def [symmetric]
    by simp
qed

text \<open>
  A chunk of 79 bytes is trimmed in 78 steps.  After 19 steps, one of them a
  success, the report of a failed step 20 returns 78.
\<close>

theorem post_trim_bail_out_witness:
  "0 < trim_steps \<lparr>trim_cinfo = comux_cinfo_init, trim_cinfo_old = comux_cinfo_init,
                    trim_steps = 78, trim_count = 19, trim_succeeded = 0,
                    trim_success_count = 1\<rparr> \<and>
   snd (afl_custom_post_trim
          \<lparr>trim_cinfo = comux_cinfo_init, trim_cinfo_old = comux_cinfo_init,
           trim_steps = 78, trim_count = 19, trim_succeeded = 0,
           trim_success_count = 1\<rparr> 0) = 78"
  using post_trim_bail_out
    [of "\<lparr>trim_cinfo = comux_cinfo_init, trim_cinfo_old = comux_cinfo_init,
          trim_steps = 78, trim_count = 19, trim_succeeded = 0,
          trim_success_count = 1\<rparr>" 0]
  by (simp add: Let_def)

text \<open>
  The claim as stated asks for \<open>max (100, 25% of trim_steps)\<close> completed steps.  A
  chunk of 40 bytes is trimmed in 39 steps.  When the first nine have failed, the
  report of a failed step 10 returns 39, the maximum step index, although 10 is
  below \<open>max 100 (39 / 4)\<close> and step 10 is not the final step.
\<close>

theorem post_trim_max_counterexample:
  "snd (afl_custom_post_trim
          \<lparr>trim_cinfo = comux_cinfo_init, trim_cinfo_old = comux_cinfo_init,
           trim_steps = 39, trim_count = 9, trim_succeeded = 0,
           trim_success_count = 0\<rparr> 0) = 39 \<and>
   (9 + 1 :: rat) < max 100 (39 / 4) \<and> (9 + 1 :: int) \<noteq> 39"
  by code_simp

text \<open>
  Single precision shows for large counts: \<open>(float) 100000001\<close> is \<open>100000000\<close>, and
  with 10000000 successes in 100000001 steps the ratio comes out as the float
  \<open>ratio_threshold\<close> itself, not below it, although the exact quotient is below one
  tenth.
\<close>

lemma post_trim_single_precision:
  "snd (afl_custom_post_trim
          \<lparr>trim_cinfo = comux_cinfo_init, trim_cinfo_old = comux_cinfo_init,
           trim_steps = 200000000, trim_count = 100000000, trim_succeeded = 0,
           trim_success_count = 10000000\<rparr> 0) = 100000001"
  by code_simp


section \<open>Properties of the replay of zero-length chunks\<close>

text \<open>
  A chunk whose payload is empty (declared length 0, or nothing left in the input at
  the recorded payload offset) either fails to load or loads zero bytes.
\<close>

lemma chunk_load_data_zero:
  assumes "zero_payload c stdin"
  shows "chunk_load_data c stdin = Inl FATAL_EXIT_CODE \<or>
         (\<exists>c'. chunk_load_data c stdin = Inr (c', 0))"
proof (cases "offset c + 20 < 0")
  case True
  then show ?thesis by (simp add: chunk_load_data_def)
next
  case False
  have "unat (len c) = 0 \<or> length (file_bytes stdin) \<le> nat (offset c + 20)"
    using assms False by (auto simp: zero_payload_def)
  then have "take (min (unat (len c)) 524288) (drop (nat (offset c + 20)) (file_bytes stdin)) = []"
    by auto
  then show ?thesis using False
    by (simp add: chunk_load_data_def comux_cinfo_data_read_result Let_def del: take_eq_Nil)
qed

lemma chunk_main_zero_payload:
  assumes "zero_payload (param_cinfo p) stdin"
    and "ctable w (unat (id_conn (param_cinfo p))) \<noteq> CONN_STATUS_CLOSED_REMOTE"
  shows "\<exists>w'. chunk_main bs env stdin p w = ProcessExit FATAL_EXIT_CODE w' \<and> wire w' = wire w"
proof -
  consider (fatal) "chunk_get_connection env (id_conn (param_cinfo p)) w = ProcessExit FATAL_EXIT_CODE w"
    | (conn) w1 where "chunk_get_connection env (id_conn (param_cinfo p)) w = Returns () w1"
        "wire w1 = wire w"
    using assms(2)
    by (cases "ctable w (unat (id_conn (param_cinfo p)))"; cases "connect_ok env")
       (auto simp: chunk_get_connection_def)
  then show ?thesis
  proof cases
    case fatal
    then show ?thesis by (simp add: chunk_main_def Let_def)
  next
    case conn
    from chunk_load_data_zero [OF assms(1)] show ?thesis
      using conn by (auto simp: chunk_main_def Let_def)
  qed
qed

lemma run_chunk_threads_append:
  "run_chunk_threads bs envs stdin ps1 w = Returns () w1 \<Longrightarrow>
   run_chunk_threads bs envs stdin (ps1 @ ps2) w = run_chunk_threads bs envs stdin ps2 w1"
  by (induction ps1 arbitrary: w) (auto split: outcome.splits)

text \<open>
  Claim C10, as amended.  The controller starts the chunk threads one after the other
  and joins each of them before it starts the next.  If the threads dispatched before
  a chunk with an empty payload all return, and the connection of that chunk has not
  been marked as closed by the target, then the thread of that chunk ends the whole
  process with the exit code 24060; nothing is transmitted by it, and the replay as a
  whole ends with that exit code.  The hypothesis on the connection is needed: a
  thread that finds its connection closed by the target leaves before it loads its
  payload.
\<close>

theorem zero_length_chunk_fatal:
  assumes "run_chunk_threads bs envs stdin ps1 w = Returns () w1"
    and "zero_payload (param_cinfo p) stdin"
    and "ctable w1 (unat (id_conn (param_cinfo p))) \<noteq> CONN_STATUS_CLOSED_REMOTE"
  shows "\<exists>w'. chunk_main bs (envs (unat (thread_id p))) stdin p w1 =
                 ProcessExit FATAL_EXIT_CODE w' \<and>
              wire w' = wire w1 \<and>
              run_chunk_threads bs envs stdin (ps1 @ p # ps2) w = ProcessExit FATAL_EXIT_CODE w'"
proof -
  from chunk_main_zero_payload [OF assms(2,3)] obtain w'
    where m: "chunk_main bs (envs (unat (thread_id p))) stdin p w1 = ProcessExit FATAL_EXIT_CODE w'"
      and "wire w' = wire w1"
    by blast
  moreover have "run_chunk_threads bs envs stdin (ps1 @ p # ps2) w = ProcessExit FATAL_EXIT_CODE w'"
    using run_chunk_threads_append [OF assms(1)] m by simp
  ultimately show ?thesis by blast
qed

text \<open>
  The manifest with one connection and a single chunk of declared length 0.
\<close>

theorem zero_length_chunk_fatal_witness:
  "exit_code (controller_main 2048
      (\<lambda>i. \<lparr>connect_ok = True, send_script = (\<lambda>k. Sent 2048), shutdown_ok = True,
             recv_script = []\<rparr>)
      \<lparr>file_bytes =
         [0x63, 0x6f, 0x6d, 0x75, 0x78, 0x21, 0x21, 0x21, 0, 0, 0, 0, 1, 0, 0, 0, 1, 0, 0, 0,
          0, 0, 0, 0, 0, 0, 0, 0, 0, 0, 0, 0, 0, 0, 0, 0, 0, 0, 0, 0],
       file_pos = 0\<rparr>) = Some 24060"
proof -
  let ?envs = "\<lambda>i :: nat. \<lparr>connect_ok = True, send_script = (\<lambda>k. Sent 2048), shutdown_ok = True,
             recv_script = []\<rparr>"
  let ?bytes = "[0x63, 0x6f, 0x6d, 0x75, 0x78, 0x21, 0x21, 0x21, 0, 0, 0, 0, 1, 0, 0, 0, 1, 0, 0, 0,
          0, 0, 0, 0, 0, 0, 0, 0, 0, 0, 0, 0, 0, 0, 0, 0, 0, 0, 0, 0] :: byte list"
  let ?c = "\<lparr>id_conn = 0, len = 0, sched = 0, flags = 0, data = [], offset = 20\<rparr>"
  let ?p = "\<lparr>param_cinfo = ?c, thread_id = 0, is_final_chunk = True\<rparr>"
  let ?stdin = "\<lparr>file_bytes = ?bytes, file_pos = 40\<rparr>"
  have parse: "controller_parse \<lparr>file_bytes = ?bytes, file_pos = 0\<rparr> = Inr (?stdin, [1], [?c])"
    by code_simp
  have disp: "controller_dispatch [1] 0 [?c] = [] @ ?p # []"
    by code_simp
  have a: "run_chunk_threads 2048 ?envs ?stdin [] initial_world = Returns () initial_world"
    by simp
  have b: "zero_payload (param_cinfo ?p) ?stdin" by (simp add: zero_payload_def)
  have c: "ctable initial_world (unat (id_conn (param_cinfo ?p))) \<noteq> CONN_STATUS_CLOSED_REMOTE"
    by (simp add: initial_world_def)
  from zero_length_chunk_fatal [OF a b c, of "[]"] obtain w' where
    r: "run_chunk_threads 2048 ?envs ?stdin ([] @ ?p # []) initial_world =
          ProcessExit FATAL_EXIT_CODE w'"
    by blast
  have "controller_main 2048 ?envs \<lparr>file_bytes = ?bytes, file_pos = 0\<rparr> =
          ProcessExit FATAL_EXIT_CODE w'"
    by (simp only: controller_main_def parse disp sum.case prod.case r outcome.case)
  then show ?thesis
    by (simp only: exit_code_def outcome.case FATAL_EXIT_CODE_def)
qed

text \<open>
  The claim as stated covers every manifest that contains a zero-length chunk.  In the
  61-byte manifest below, connection 0 carries the chunk \<open>x\<close> (sched 0) and a chunk of
  length 0 (sched 1), which \<open>comux_manifest_read\<close> decodes without complaint.  When
  the target has closed the connection, the first \<open>send\<close> fails with \<open>EPIPE\<close>, the
  connection is marked as closed by the target, the second thread leaves through
  \<open>pthread_exit\<close> before it loads anything, and the replay ends with exit code 0.
\<close>

theorem zero_length_chunk_skipped:
  "exit_code (controller_main 2048
      (\<lambda>i. \<lparr>connect_ok = True, send_script = (\<lambda>k. SendError EPIPE), shutdown_ok = True,
             recv_script = []\<rparr>)
      \<lparr>file_bytes =
         [0x63, 0x6f, 0x6d, 0x75, 0x78, 0x21, 0x21, 0x21, 0, 0, 0, 0, 1, 0, 0, 0, 2, 0, 0, 0,
          0, 0, 0, 0, 1, 0, 0, 0, 0, 0, 0, 0, 0, 0, 0, 0, 0, 0, 0, 0, 0x78,
          0, 0, 0, 0, 0, 0, 0, 0, 0, 0, 0, 0, 1, 0, 0, 0, 0, 0, 0, 0],
       file_pos = 0\<rparr>) = Some 0 \<and>
   fst (snd (comux_manifest_read comux_manifest_init
      \<lparr>file_bytes =
         [0x63, 0x6f, 0x6d, 0x75, 0x78, 0x21, 0x21, 0x21, 0, 0, 0, 0, 1, 0, 0, 0, 2, 0, 0, 0,
          0, 0, 0, 0, 1, 0, 0, 0, 0, 0, 0, 0, 0, 0, 0, 0, 0, 0, 0, 0, 0x78,
          0, 0, 0, 0, 0, 0, 0, 0, 0, 0, 0, 0, 1, 0, 0, 0, 0, 0, 0, 0],
       file_pos = 0\<rparr>)) =
     \<lparr>manifest_header = \<lparr>magic = COMUX_MAGIC, version = 0, num_conns = 1, num_chunks = 2\<rparr>,
      manifest_cinfo_list =
        [\<lparr>id_conn = 0, len = 1, sched = 0, flags = 0, data = [0x78], offset = 20\<rparr>,
         \<lparr>id_conn = 0, len = 0, sched = 1, flags = 0, data = [], offset = 41\<rparr>]\<rparr>"
  by code_simp


section \<open>Properties of the send loop\<close>

text \<open>One turn of the loop, and its last turn.\<close>

lemma send_loop_step:
  assumes "script k = Sent a" "0 < min a (min (unat (len cinfo) - total_wcount) interval_size)"
  shows "send_loop script cinfo interval_size k wcount total_wcount sent =
         send_loop script cinfo interval_size (Suc k)
           (min a (min (unat (len cinfo) - total_wcount) interval_size))
           (total_wcount + min a (min (unat (len cinfo) - total_wcount) interval_size))
           (sent @ take (min a (min (unat (len cinfo) - total_wcount) interval_size))
                     (drop wcount (data cinfo)))"
  using assms by (subst send_loop.simps) (simp add: Let_def)

lemma send_loop_done:
  assumes "script k = Sent a" "unat (len cinfo) \<le> total_wcount"
  shows "send_loop script cinfo interval_size k wcount total_wcount sent =
         (Sent 0, total_wcount, sent)"
  using assms by (subst send_loop.simps) (simp add: Let_def)

text \<open>
  A payload of three slices \<open>a\<close>, \<open>b\<close>, \<open>c\<close> on a socket that accepts every slice in
  full: the third call of \<open>send\<close> starts at \<open>dptr + wcount\<close>, which is the start of
  \<open>b\<close>, not at \<open>dptr + total_wcount\<close>, the start of \<open>c\<close>.
\<close>

lemma send_loop_three_slices:
  assumes d: "data cinfo = a @ b @ c"
    and l: "unat (len cinfo) = length (data cinfo)"
    and a: "length a = bs" and b: "length b = bs"
    and c: "0 < length c" "length c \<le> bs"
    and s: "\<forall>k. \<exists>n. script k = Sent n \<and> bs \<le> n"
  shows "send_loop script cinfo bs 0 0 0 [] =
           (Sent 0, length (data cinfo), a @ b @ take (length c) b)"
proof -
  from s obtain n0 where n0: "script 0 = Sent n0" "bs \<le> n0" by blast
  from s obtain n1 where n1: "script (Suc 0) = Sent n1" "bs \<le> n1" by blast
  from s obtain n2 where n2: "script (Suc (Suc 0)) = Sent n2" "bs \<le> n2" by blast
  from s obtain n3 where n3: "script (Suc (Suc (Suc 0))) = Sent n3" by blast
  have L: "unat (len cinfo) = bs + bs + length c" using l d a b by simp
  have bs: "0 < bs" using c by arith
  have m0: "min n0 (min (unat (len cinfo) - 0) bs) = bs" using n0 L by simp
  have m1: "min n1 (min (unat (len cinfo) - (0 + bs)) bs) = bs" using n1 L by simp
  have m2: "min n2 (min (unat (len cinfo) - (0 + bs + bs)) bs) = length c" using n2 L c by simp
  have "send_loop script cinfo bs 0 0 0 [] =
        send_loop script cinfo bs (Suc 0) bs (0 + bs) ([] @ take bs (drop 0 (data cinfo)))"
    using send_loop_step [where script = script and k = 0 and a = n0 and cinfo = cinfo
        and total_wcount = 0 and interval_size = bs and wcount = 0 and sent = "[]"] n0(1) bs
    unfolding m0 by simp
  also have "\<dots> = send_loop script cinfo bs (Suc (Suc 0)) bs (0 + bs + bs)
                     (([] @ take bs (drop 0 (data cinfo))) @ take bs (drop bs (data cinfo)))"
    using send_loop_step [where script = script and k = "Suc 0" and a = n1 and cinfo = cinfo
        and total_wcount = "0 + bs" and interval_size = bs and wcount = bs
        and sent = "[] @ take bs (drop 0 (data cinfo))"] n1(1) bs
    unfolding m1 by simp
  also have "\<dots> = send_loop script cinfo bs (Suc (Suc (Suc 0))) (length c) (0 + bs + bs + length c)
                     ((([] @ take bs (drop 0 (data cinfo))) @ take bs (drop bs (data cinfo))) @
                      take (length c) (drop bs (data cinfo)))"
    using send_loop_step [where script = script and k = "Suc (Suc 0)" and a = n2 and cinfo = cinfo
        and total_wcount = "0 + bs + bs" and interval_size = bs and wcount = bs
        and sent = "([] @ take bs (drop 0 (data cinfo))) @ take bs (drop bs (data cinfo))"]
      n2(1) c
    unfolding m2 by simp
  also have "\<dots> = (Sent 0, 0 + bs + bs + length c,
                   (([] @ take bs (drop 0 (data cinfo))) @ take bs (drop bs (data cinfo))) @
                      take (length c) (drop bs (data cinfo)))"
    using send_loop_done [where script = script and k = "Suc (Suc (Suc 0))" and a = n3
        and cinfo = cinfo and total_wcount = "0 + bs + bs + length c"] n3 L
    by simp
  also have "\<dots> = (Sent 0, length (data cinfo), a @ b @ take (length c) b)"
    using d a b c by simp
  finally show ?thesis .
qed

text \<open>
  Claim C3.  The claim says that each thread transmits exactly the payload of its
  chunk, in order and in slices of the configured size.  For a payload that needs
  three slices the target receives \<open>a @ b @ take (length c) b\<close>: the start of the
  second slice again in place of the third slice.  (The sibling loop
  \<open>comux_cinfo_data_write\<close> writes from \<open>data + total_wcount\<close>.)
\<close>

theorem chunk_send_data_third_slice:
  assumes "data cinfo = a @ b @ c"
    and "unat (len cinfo) = length (data cinfo)"
    and "length a = bs" and "length b = bs"
    and "0 < length c" and "length c \<le> bs"
    and "\<forall>k. \<exists>n. send_script env k = Sent n \<and> bs \<le> n"
  shows "wire (final_world (chunk_send_data bs env cinfo fin w)) (unat (id_conn cinfo)) =
           wire w (unat (id_conn cinfo)) @ a @ b @ take (length c) b"
proof -
  have "bs < unat (len cinfo)" using assms by simp
  then show ?thesis
    using send_loop_three_slices [OF assms]
    by (simp add: chunk_send_data_def Let_def final_world_def)
qed

text \<open>
  With the default slice size of 2048: a payload of 2048 times \<open>A\<close>, 2048 times \<open>B\<close>
  and one \<open>C\<close> arrives with a \<open>B\<close> at its end.
\<close>

theorem chunk_send_data_third_slice_witness:
  "data \<lparr>id_conn = 0, len = 4097, sched = 0, flags = 0,
         data = replicate 2048 0x41 @ replicate 2048 0x42 @ [0x43], offset = 20\<rparr> =
     replicate 2048 0x41 @ replicate 2048 0x42 @ [0x43] \<and>
   unat (len \<lparr>id_conn = 0, len = 4097, sched = 0, flags = 0,
         data = replicate 2048 0x41 @ replicate 2048 0x42 @ [0x43], offset = 20\<rparr>) =
     length (data \<lparr>id_conn = 0, len = 4097, sched = 0, flags = 0,
         data = replicate 2048 0x41 @ replicate 2048 0x42 @ [0x43], offset = 20\<rparr>) \<and>
   length (replicate 2048 (0x41 :: byte)) = 2048 \<and>
   length (replicate 2048 (0x42 :: byte)) = 2048 \<and>
   0 < length [0x43 :: byte] \<and> length [0x43 :: byte] \<le> 2048 \<and>
   (\<exists>n. send_script \<lparr>connect_ok = True, send_script = (\<lambda>k. Sent 2048), shutdown_ok = True,
             recv_script = []\<rparr> 7 = Sent n \<and> 2048 \<le> n) \<and>
   wire (final_world (chunk_send_data 2048
           \<lparr>connect_ok = True, send_script = (\<lambda>k. Sent 2048), shutdown_ok = True,
             recv_script = []\<rparr>
           \<lparr>id_conn = 0, len = 4097, sched = 0, flags = 0,
             data = replicate 2048 0x41 @ replicate 2048 0x42 @ [0x43], offset = 20\<rparr>
           True initial_world)) 0 =
     replicate 2048 0x41 @ replicate 2048 0x42 @ [0x42]"
  using chunk_send_data_third_slice
    [of "\<lparr>id_conn = 0, len = 4097, sched = 0, flags = 0,
          data = replicate 2048 0x41 @ replicate 2048 0x42 @ [0x43], offset = 20\<rparr>"
        "replicate 2048 0x41" "replicate 2048 0x42" "[0x43]" 2048
        "\<lparr>connect_ok = True, send_script = (\<lambda>k. Sent 2048), shutdown_ok = True,
             recv_script = []\<rparr>" True initial_world]
  by (simp add: initial_world_def)

text \<open>
  The whole replay of the manifest with one connection and the single chunk \<open>ABC\<close>,
  with a slice size of 1: the target receives \<open>ABB\<close>.
\<close>

lemma replay_three_slices_example:
  "wire (final_world (controller_main 1
      (\<lambda>i. \<lparr>connect_ok = True, send_script = (\<lambda>k. Sent 1), shutdown_ok = True,
             recv_script = []\<rparr>)
      \<lparr>file_bytes =
         [0x63, 0x6f, 0x6d, 0x75, 0x78, 0x21, 0x21, 0x21, 0, 0, 0, 0, 1, 0, 0, 0, 1, 0, 0, 0,
          0, 0, 0, 0, 3, 0, 0, 0, 0, 0, 0, 0, 0, 0, 0, 0, 0, 0, 0, 0, 0x41, 0x42, 0x43],
       file_pos = 0\<rparr>)) 0 = [0x41, 0x42, 0x42]"
  by code_simp


section \<open>Properties of the dictionary\<close>

text \<open>\<open>strcmp\<close> is a strict linear order on strings.\<close>

lemma strcmp_eq_0: "(strcmp a b = 0) = (a = b)"
  by (induction a b rule: strcmp.induct) auto

lemma strcmp_flip: "(strcmp a b < 0) = (0 < strcmp b a)"
  by (induction a b rule: strcmp.induct) auto

lemma strcmp_trans: "strcmp a b < 0 \<Longrightarrow> strcmp b c < 0 \<Longrightarrow> strcmp a c < 0"
proof (induction a b arbitrary: c rule: strcmp.induct)
  case 1
  then show ?case by simp
next
  case (2 b bs)
  then show ?case by (cases c) (auto split: if_splits)
next
  case (3 a as)
  then show ?case by simp
next
  case (4 a as b bs)
  then show ?case by (cases c) (auto split: if_splits)
qed


lemma sorted_dict_distinct: "sorted_dict d \<Longrightarrow> distinct (map str d)"
  unfolding sorted_dict_def
  by (induction d) (auto simp: strcmp_eq_0 [symmetric, of "str _" "str _"])

lemma set_qsort_insert [simp]: "set (qsort_insert e xs) = insert e (set xs)"
  by (induction xs) auto

lemma length_qsort_insert [simp]: "length (qsort_insert e xs) = Suc (length xs)"
  by (induction xs) auto

lemma sorted_qsort_insert:
  "sorted_dict xs \<Longrightarrow> str e \<notin> str ` set xs \<Longrightarrow> sorted_dict (qsort_insert e xs)"
proof (induction xs)
  case Nil
  then show ?case by (simp add: sorted_dict_def)
next
  case (Cons x xs)
  show ?case
  proof (cases "dict_entry_cmp e x \<le> 0")
    case True
    then have lt: "strcmp (str e) (str x) < 0"
      using Cons.prems(2) strcmp_eq_0 [of "str e" "str x"]
      by (auto simp: dict_entry_cmp_def)
    then have "\<forall>y\<in>set xs. strcmp (str e) (str y) < 0"
      using Cons.prems(1) by (auto simp: sorted_dict_def intro: strcmp_trans)
    then show ?thesis using True lt Cons.prems(1) by (simp add: sorted_dict_def)
  next
    case False
    then have "strcmp (str x) (str e) < 0"
      by (simp add: dict_entry_cmp_def strcmp_flip)
    moreover have "sorted_dict (qsort_insert e xs)"
      using Cons by (simp add: sorted_dict_def)
    ultimately show ?thesis using False Cons.prems(1) by (auto simp: sorted_dict_def)
  qed
qed

lemma dict_sort_snoc:
  assumes "sorted_dict d" "str e \<notin> str ` set d"
  shows "sorted_dict (dict_sort (d @ [e]))"
    and "set (dict_sort (d @ [e])) = insert e (set d)"
    and "length (dict_sort (d @ [e])) = Suc (length d)"
proof -
  have "sorted_dict (foldr qsort_insert d [e]) \<and> set (foldr qsort_insert d [e]) = insert e (set d)
        \<and> length (foldr qsort_insert d [e]) = Suc (length d)"
    using assms
  proof (induction d)
    case Nil
    then show ?case by (simp add: sorted_dict_def)
  next
    case (Cons x d)
    have sd: "sorted_dict d" using Cons.prems(1) by (simp add: sorted_dict_def)
    have "str x \<notin> str ` set d" using sorted_dict_distinct [OF Cons.prems(1)] by simp
    moreover have "str x \<noteq> str e" using Cons.prems(2) by auto
    ultimately have "str x \<notin> str ` set (foldr qsort_insert d [e])"
      using Cons.IH [OF sd] Cons.prems(2) by auto
    then show ?case using Cons.IH [OF sd] Cons.prems(2) sorted_qsort_insert by auto
  qed
  then show "sorted_dict (dict_sort (d @ [e]))"
    and "set (dict_sort (d @ [e])) = insert e (set d)"
    and "length (dict_sort (d @ [e])) = Suc (length d)"
    by (simp_all add: dict_sort_def)
qed


text \<open>
  The binary search of \<open>dict_search\<close> on a sorted dictionary: it fails exactly when no
  entry has the string searched for.
\<close>

lemma sorted_dict_nth:
  "sorted_dict d \<Longrightarrow> i < j \<Longrightarrow> j < length d \<Longrightarrow> strcmp (str (d ! i)) (str (d ! j)) < 0"
  by (simp add: sorted_dict_def sorted_wrt_iff_nth_less)

lemma dict_search_loop_correct:
  assumes "sorted_dict d"
    and "0 \<le> left" and "right < int (length d)"
    and "\<forall>i. i < nat left \<longrightarrow> strcmp (str (d ! i)) w < 0"
    and "\<forall>i. right < int i \<and> i < length d \<longrightarrow> strcmp w (str (d ! i)) < 0"
  shows "(dict_search_loop d w left right = - 1 \<and> w \<notin> str ` set d) \<or>
         (0 \<le> dict_search_loop d w left right \<and>
          nat (dict_search_loop d w left right) < length d \<and>
          str (d ! nat (dict_search_loop d w left right)) = w)"
  using assms
proof (induction d w left right rule: dict_search_loop.induct)
  case (1 dict word left right)
  show ?case
  proof (cases "left \<le> right")
    case False
    have "word \<notin> str ` set dict"
    proof
      assume "word \<in> str ` set dict"
      then obtain i where i: "i < length dict" "str (dict ! i) = word"
        by (auto simp: in_set_conv_nth)
      have "i < nat left \<or> right < int i" using False "1.prems"(2) by linarith
      then have "strcmp word word < 0" using i "1.prems"(4,5) by auto
      then show False using strcmp_eq_0 [of word word] by simp
    qed
    moreover have "dict_search_loop dict word left right = - 1"
      using False by (subst dict_search_loop.simps) simp
    ultimately show ?thesis by simp
  next
    case True
    define mid where "mid = (left + right) div 2"
    define comparison where
      "comparison = dict_entry_cmp \<lparr>str = word, len_entry = length word\<rparr> (dict ! nat mid)"
    have mid: "left \<le> mid" "mid \<le> right" "0 \<le> mid" "nat mid < length dict"
      using True "1.prems"(2,3) by (auto simp: mid_def)
    have cmp: "comparison = strcmp word (str (dict ! nat mid))"
      by (simp add: comparison_def dict_entry_cmp_def)
    consider (less) "comparison < 0" | (greater) "\<not> comparison < 0" "comparison > 0"
      | (equal) "\<not> comparison < 0" "\<not> comparison > 0"
      by linarith
    then show ?thesis
    proof cases
      case less
      have a: "\<forall>i. mid - 1 < int i \<and> i < length dict \<longrightarrow> strcmp word (str (dict ! i)) < 0"
      proof (intro allI impI)
        fix i assume i: "mid - 1 < int i \<and> i < length dict"
        show "strcmp word (str (dict ! i)) < 0"
        proof (cases "i = nat mid")
          case True
          then show ?thesis using less cmp by simp
        next
          case False
          then have "nat mid < i" using i mid(3) by linarith
          from sorted_dict_nth [OF "1.prems"(1) this] i
          have "strcmp (str (dict ! nat mid)) (str (dict ! i)) < 0" by simp
          then show ?thesis using less cmp strcmp_trans by auto
        qed
      qed
      have "mid - 1 < int (length dict)" using mid by linarith
      moreover have "dict_search_loop dict word left right =
                       dict_search_loop dict word left (mid - 1)"
        using True less
        by (subst dict_search_loop.simps)
           (simp add: Let_def mid_def [symmetric] comparison_def [symmetric])
      ultimately show ?thesis
        using "1.IH"(1) [OF True mid_def comparison_def less "1.prems"(1,2) _ "1.prems"(4) a]
        by simp
    next
      case greater
      have a: "\<forall>i. i < nat (mid + 1) \<longrightarrow> strcmp (str (dict ! i)) word < 0"
      proof (intro allI impI)
        fix i assume i: "i < nat (mid + 1)"
        show "strcmp (str (dict ! i)) word < 0"
        proof (cases "i = nat mid")
          case True
          then show ?thesis using greater cmp strcmp_flip [of "str (dict ! nat mid)" word] by simp
        next
          case False
          then have "i < nat mid" using i mid(3) by linarith
          from sorted_dict_nth [OF "1.prems"(1) this mid(4)]
          have "strcmp (str (dict ! i)) (str (dict ! nat mid)) < 0" by simp
          moreover have "strcmp (str (dict ! nat mid)) word < 0"
            using greater cmp strcmp_flip [of "str (dict ! nat mid)" word] by simp
          ultimately show ?thesis using strcmp_trans by blast
        qed
      qed
      have "0 \<le> mid + 1" using mid by linarith
      moreover have "dict_search_loop dict word left right =
                       dict_search_loop dict word (mid + 1) right"
        using True greater
        by (subst dict_search_loop.simps)
           (simp add: Let_def mid_def [symmetric] comparison_def [symmetric])
      ultimately show ?thesis
        using "1.IH"(2) [OF True mid_def comparison_def greater "1.prems"(1) _ "1.prems"(3) a
            "1.prems"(5)]
        by simp
    next
      case equal
      then have "comparison = 0" by linarith
      then have "str (dict ! nat mid) = word" using cmp strcmp_eq_0 [of word] by auto
      moreover have "dict_search_loop dict word left right = mid"
        using True equal
        by (subst dict_search_loop.simps)
           (simp add: Let_def mid_def [symmetric] comparison_def [symmetric])
      ultimately show ?thesis using mid by simp
    qed
  qed
qed

lemma dict_search_None:
  assumes "sorted_dict d"
  shows "(dict_search d w = None) = (w \<notin> str ` set d)"
proof -
  have "(dict_search_loop d w 0 (int (length d) - 1) = - 1 \<and> w \<notin> str ` set d) \<or>
         (0 \<le> dict_search_loop d w 0 (int (length d) - 1) \<and>
          nat (dict_search_loop d w 0 (int (length d) - 1)) < length d \<and>
          str (d ! nat (dict_search_loop d w 0 (int (length d) - 1))) = w)"
    by (rule dict_search_loop_correct [OF assms]) auto
  moreover have "str (d ! i) \<in> str ` set d" if "i < length d" for i
    using that by simp
  ultimately show ?thesis
    by (fastforce simp: dict_search_def Let_def)
qed

text \<open>\<open>dict_add\<close> on a sorted dictionary.\<close>

lemma dict_add_sorted:
  assumes "sorted_dict d"
  shows "dict_add d s n =
           (if s \<in> str ` set d \<or> n = 0 \<or> DICT_ENTRY_MAXLEN < n then AddFailed
            else if DICT_MAXLEN \<le> length d then AddOutOfBounds
            else AddOk (dict_sort (d @ [\<lparr>str = take n s, len_entry = n\<rparr>])))"
proof (cases "s \<in> str ` set d")
  case True
  then have "dict_search d s \<noteq> None" using dict_search_None [OF assms, of s] by simp
  then show ?thesis using True by (simp add: dict_add_def)
next
  case False
  then have "dict_search d s = None" using dict_search_None [OF assms, of s] by simp
  then show ?thesis using False by (simp add: dict_add_def dict_entry_init_def)
qed

text \<open>A line that ends with a newline, as \<open>getline\<close> and the loader see it.\<close>

lemma getline_line:
  "0x0a \<notin> set l \<Longrightarrow> getline (l @ 0x0a # rest) = Some (l @ [0x0a], rest)"
  by (induction l) auto

lemma cstring_line:
  "0 \<notin> set l \<Longrightarrow> cstring ((l @ [b]) [length (l @ [b]) - 1 := 0]) = l"
proof -
  assume "0 \<notin> set l"
  then have "takeWhile (\<lambda>b. b \<noteq> 0) (l @ [0 :: byte]) = l"
    by (induction l) auto
  moreover have "(l @ [b]) [length (l @ [b]) - 1 := 0] = l @ [0]"
    by simp
  ultimately show ?thesis by (simp only: cstring_def)
qed

lemma length_cstring_line:
  "line \<noteq> [] \<Longrightarrow> length (cstring (line [length line - 1 := 0])) \<le> length line - 1"
proof -
  assume "line \<noteq> []"
  then obtain xs b where l: "line = xs @ [b]" by (metis rev_exhaust)
  have "length (takeWhile (\<lambda>b. b \<noteq> 0) (xs @ [0 :: byte])) \<le> length xs"
    by (induction xs) auto
  then show ?thesis by (simp add: l cstring_def)
qed

lemma dict_read_lines_line:
  assumes "0x0a \<notin> set l" "0 \<notin> set l"
  shows "dict_read_lines (l @ 0x0a # rest) d =
           (case dict_add d l (length l) of
              AddFailed \<Rightarrow> Null
            | AddOutOfBounds \<Rightarrow> OutOfBounds
            | AddOk d \<Rightarrow> dict_read_lines rest d)"
  using cstring_line [OF assms(2), of "0x0a"]
  by (subst dict_read_lines.simps) (simp add: getline_line [OF assms(1)] Let_def)

text \<open>
  A file of well-formed lines, all different: every line is added, until the array
  is full.
\<close>

lemma dict_read_lines_valid:
  assumes "\<forall>l\<in>set ls. l \<noteq> [] \<and> length l \<le> DICT_ENTRY_MAXLEN \<and> 0 \<notin> set l \<and> 0x0a \<notin> set l"
    and "distinct ls" and "set ls \<inter> str ` set d = {}"
    and "sorted_dict d" and "length d \<le> DICT_MAXLEN"
  shows "if length d + length ls \<le> DICT_MAXLEN
         then \<exists>d'. dict_read_lines (concat (map (\<lambda>l. l @ [0x0a]) ls)) d = Loaded d' \<and>
                sorted_dict d' \<and>
                set d' = set d \<union> (\<lambda>l. \<lparr>str = l, len_entry = length l\<rparr>) ` set ls
         else dict_read_lines (concat (map (\<lambda>l. l @ [0x0a]) ls)) d = OutOfBounds"
  using assms
proof (induction ls arbitrary: d)
  case Nil
  then show ?case by (simp add: dict_read_lines.simps [of "[]"])
next
  case (Cons l ls)
  let ?e = "\<lparr>str = l, len_entry = length l\<rparr>"
  let ?d = "dict_sort (d @ [?e])"
  have l: "l \<noteq> []" "length l \<le> DICT_ENTRY_MAXLEN" "0 \<notin> set l" "0x0a \<notin> set l"
    "l \<notin> str ` set d"
    using Cons.prems(1,3) by auto
  have step: "dict_read_lines (concat (map (\<lambda>l. l @ [0x0a]) (l # ls))) d =
           (case dict_add d l (length l) of
              AddFailed \<Rightarrow> Null
            | AddOutOfBounds \<Rightarrow> OutOfBounds
            | AddOk d \<Rightarrow> dict_read_lines (concat (map (\<lambda>l. l @ [0x0a]) ls)) d)"
    using dict_read_lines_line [OF l(4,3)] by simp
  show ?case
  proof (cases "DICT_MAXLEN \<le> length d")
    case True
    then show ?thesis
      unfolding step using l by (simp add: dict_add_sorted [OF Cons.prems(4)])
  next
    case False
    have add: "dict_add d l (length l) = AddOk ?d"
      using l False by (simp add: dict_add_sorted [OF Cons.prems(4)])
    have e: "str ?e \<notin> str ` set d" using l(5) by simp
    note srt = dict_sort_snoc [OF Cons.prems(4) e]
    have a: "\<forall>l\<in>set ls. l \<noteq> [] \<and> length l \<le> DICT_ENTRY_MAXLEN \<and> 0 \<notin> set l \<and> 0x0a \<notin> set l"
      using Cons.prems(1) by simp
    have b: "distinct ls" using Cons.prems(2) by simp
    have c: "set ls \<inter> str ` set ?d = {}"
      using Cons.prems(2,3) by (auto simp: srt(2))
    have d: "length ?d \<le> DICT_MAXLEN" using False by (simp add: srt(3))
    from Cons.IH [OF a b c srt(1) d] show ?thesis
      unfolding step add by (auto simp: srt(2,3))
  qed
qed

text \<open>
  Claim C9.  The claim says that the loader fails on a file with more than 2048
  entries.  On a file of more than \<open>DICT_MAXLEN\<close> well-formed lines, all different,
  the loader does not return \<open>NULL\<close>: it writes entry number 2049 behind the array.
\<close>

theorem dict_from_file_overflow:
  assumes "\<forall>l\<in>set ls. l \<noteq> [] \<and> length l \<le> DICT_ENTRY_MAXLEN \<and> 0 \<notin> set l \<and> 0x0a \<notin> set l"
    and "distinct ls" and "DICT_MAXLEN < length ls"
  shows "dict_from_file (Some (concat (map (\<lambda>l. l @ [0x0a]) ls))) = OutOfBounds"
  using dict_read_lines_valid [OF assms(1,2), of "[]"] assms(3)
  by (simp add: dict_from_file_def sorted_dict_def)

text \<open>
  A file of 2049 lines of two bytes each: line \<open>i\<close> holds the digits of \<open>i\<close> in base
  64, each shifted by 48.
\<close>

lemma unat_digit: "k < 100 \<Longrightarrow> unat (of_nat k + 48 :: byte) = k + 48"
proof -
  assume k: "k < 100"
  have "of_nat k + 48 = (of_nat (k + 48) :: byte)" by simp
  then show ?thesis using k by (simp only: unat_of_nat) simp
qed

theorem dict_from_file_overflow_witness:
  "dict_from_file
     (Some (concat (map (\<lambda>i. [of_nat (i div 64) + 48, of_nat (i mod 64) + 48, 0x0a])
                        [0..<2049]))) = OutOfBounds"
proof -
  let ?f = "\<lambda>i :: nat. [of_nat (i div 64) + 48, of_nat (i mod 64) + 48 :: byte]"
  let ?ls = "map ?f [0..<2049]"
  have hi: "unat (of_nat (i div 64) + 48 :: byte) = i div 64 + 48" if "i < 2049" for i :: nat
    using that by (intro unat_digit) simp
  have lo: "unat (of_nat (i mod 64) + 48 :: byte) = i mod 64 + 48" for i :: nat
    by (intro unat_digit) simp
  have nz: "(of_nat (i div 64) + 48 :: byte) \<noteq> b" "(of_nat (i mod 64) + 48 :: byte) \<noteq> b"
    if "i < 2049" "unat b < 48" for i :: nat and b :: byte
    using hi [OF that(1)] lo [of i] that(2) by auto
  have valid: "\<forall>l\<in>set ?ls. l \<noteq> [] \<and> length l \<le> DICT_ENTRY_MAXLEN \<and> 0 \<notin> set l \<and> 0x0a \<notin> set l"
    using nz [where b = 0] nz [where b = "0x0a"] by (auto simp: DICT_ENTRY_MAXLEN_def)
  have "inj_on ?f (set [0..<2049])"
  proof (rule inj_onI)
    fix i j assume i: "i \<in> set [0..<2049]" and j: "j \<in> set [0..<2049]" and e: "?f i = ?f j"
    from e have "unat (of_nat (i div 64) + 48 :: byte) = unat (of_nat (j div 64) + 48 :: byte)"
      and "unat (of_nat (i mod 64) + 48 :: byte) = unat (of_nat (j mod 64) + 48 :: byte)"
      by simp_all
    then have "i div 64 = j div 64" "i mod 64 = j mod 64"
      using hi [of i] hi [of j] lo [of i] lo [of j] i j by simp_all
    then show "i = j" by (metis div_mult_mod_eq)
  qed
  then have dist: "distinct ?ls" by (simp add: distinct_map)
  have len: "DICT_MAXLEN < length ?ls" by (simp add: DICT_MAXLEN_def)
  have "concat (map (\<lambda>l. l @ [0x0a]) ?ls) =
        concat (map (\<lambda>i. [of_nat (i div 64) + 48, of_nat (i mod 64) + 48, 0x0a]) [0..<2049])"
    by (simp add: comp_def)
  then show ?thesis
    using dict_from_file_overflow [OF valid dist len] by simp
qed

text \<open>
  What holds of a dictionary that the loader returns: it has at most \<open>DICT_MAXLEN\<close>
  entries, in strictly ascending order of \<open>strcmp\<close>, each with a recorded length
  between 1 and \<open>DICT_ENTRY_MAXLEN\<close> that bounds the length of its string.
\<close>


lemma dict_read_lines_loaded:
  assumes "dict_read_lines fp d = Loaded d'"
    and "sorted_dict d" and "length d \<le> DICT_MAXLEN" and "list_all entry_ok d"
  shows "sorted_dict d' \<and> length d' \<le> DICT_MAXLEN \<and> list_all entry_ok d'"
  using assms
proof (induction fp d rule: dict_read_lines.induct)
  case (1 fp dict)
  show ?case
  proof (cases "getline fp")
    case None
    then show ?thesis using "1.prems" by (simp add: dict_read_lines.simps [of fp])
  next
    case (Some p)
    obtain line rest where p: "p = (line, rest)" by (cases p)
    define s where "s = cstring (line [length line - 1 := 0])"
    define n where "n = length line - 1"
    have ne: "line \<noteq> []" using getline_length Some p by blast
    have sn: "length s \<le> n" using length_cstring_line [OF ne] by (simp add: s_def n_def)
    have run: "dict_read_lines fp dict =
                 (case dict_add dict s n of
                    AddFailed \<Rightarrow> Null
                  | AddOutOfBounds \<Rightarrow> OutOfBounds
                  | AddOk d \<Rightarrow> dict_read_lines rest d)"
      by (subst dict_read_lines.simps) (simp add: Some p Let_def s_def n_def)
    define e where "e = \<lparr>str = take n s, len_entry = n\<rparr>"
    let ?d = "dict_sort (dict @ [e])"
    have add: "dict_add dict s n = AddOk ?d" and s: "s \<notin> str ` set dict"
      and n: "n \<noteq> 0" "n \<le> DICT_ENTRY_MAXLEN" and l: "length dict < DICT_MAXLEN"
      using "1.prems"(1) unfolding run dict_add_sorted [OF "1.prems"(2)] e_def
      by (auto split: if_splits)
    have e: "str e \<notin> str ` set dict" using s sn by (simp add: e_def)
    note srt = dict_sort_snoc [OF "1.prems"(2) e]
    have "entry_ok e" using n sn by (simp add: entry_ok_def e_def)
    then have "list_all entry_ok ?d"
      using "1.prems"(4) by (simp add: list_all_iff srt(2))
    moreover have "length ?d \<le> DICT_MAXLEN" using l by (simp add: srt(3))
    moreover have "dict_read_lines rest ?d = Loaded d'"
      using "1.prems"(1) unfolding run add by simp
    ultimately show ?thesis
      using "1.IH" [OF Some p [symmetric] refl refl add [unfolded s_def n_def] _ srt(1)]
      by simp
  qed
qed

lemma dict_from_file_loaded:
  assumes "dict_from_file file = Loaded d"
  shows "length d \<le> DICT_MAXLEN \<and> list_all entry_ok d \<and> sorted_dict d"
proof -
  obtain fp where "file = Some fp" "dict_read_lines fp [] = Loaded d"
    using assms by (cases "file") (auto simp: dict_from_file_def)
  then show ?thesis
    using dict_read_lines_loaded [of fp "[]" d] by (simp add: sorted_dict_def)
qed


text \<open>
  A text file whose lines all end with a newline and hold no zero byte: when the
  loader returns a dictionary, no line is blank or longer than \<open>DICT_ENTRY_MAXLEN\<close>,
  no two lines are equal, and there are at most \<open>DICT_MAXLEN\<close> lines.  So on a blank
  line, a duplicate or a line that is too long the loader returns no dictionary.
\<close>

lemma dict_read_lines_text:
  assumes "\<forall>l\<in>set ls. 0 \<notin> set l \<and> 0x0a \<notin> set l"
    and "sorted_dict d" and "length d \<le> DICT_MAXLEN"
    and "dict_read_lines (concat (map (\<lambda>l. l @ [0x0a]) ls)) d = Loaded d'"
  shows "(\<forall>l\<in>set ls. l \<noteq> [] \<and> length l \<le> DICT_ENTRY_MAXLEN) \<and> distinct ls \<and>
         set ls \<inter> str ` set d = {} \<and> length d + length ls \<le> DICT_MAXLEN"
  using assms
proof (induction ls arbitrary: d)
  case Nil
  then show ?case by simp
next
  case (Cons l ls)
  define e where "e = \<lparr>str = take (length l) l, len_entry = length l\<rparr>"
  let ?d = "dict_sort (d @ [e])"
  have l: "0x0a \<notin> set l" "0 \<notin> set l" using Cons.prems(1) by simp_all
  have run: "dict_read_lines (concat (map (\<lambda>l. l @ [0x0a]) (l # ls))) d =
           (case dict_add d l (length l) of
              AddFailed \<Rightarrow> Null
            | AddOutOfBounds \<Rightarrow> OutOfBounds
            | AddOk d \<Rightarrow> dict_read_lines (concat (map (\<lambda>l. l @ [0x0a]) ls)) d)"
    using dict_read_lines_line [OF l] by simp
  have add: "dict_add d l (length l) = AddOk ?d" and s: "l \<notin> str ` set d"
    and n: "l \<noteq> []" "length l \<le> DICT_ENTRY_MAXLEN" and len: "length d < DICT_MAXLEN"
    using Cons.prems(4) unfolding run dict_add_sorted [OF Cons.prems(2)] e_def
    by (auto split: if_splits)
  have e: "str e \<notin> str ` set d" using s by (simp add: e_def)
  note srt = dict_sort_snoc [OF Cons.prems(2) e]
  have a: "\<forall>l\<in>set ls. 0 \<notin> set l \<and> 0x0a \<notin> set l" using Cons.prems(1) by simp
  have b: "length ?d \<le> DICT_MAXLEN" using len by (simp add: srt(3))
  have c: "dict_read_lines (concat (map (\<lambda>l. l @ [0x0a]) ls)) ?d = Loaded d'"
    using Cons.prems(4) unfolding run add by simp
  have se: "str e = l" by (simp add: e_def)
  from Cons.IH [OF a srt(1) b c]
  have "(\<forall>l\<in>set ls. l \<noteq> [] \<and> length l \<le> DICT_ENTRY_MAXLEN) \<and> distinct ls \<and>
        set ls \<inter> insert l (str ` set d) = {} \<and> Suc (length d) + length ls \<le> DICT_MAXLEN"
    by (simp add: srt(2,3) se)
  then show ?case
    using s n by auto
qed

lemma dict_from_file_text:
  assumes "\<forall>l\<in>set ls. 0 \<notin> set l \<and> 0x0a \<notin> set l"
    and "dict_from_file (Some (concat (map (\<lambda>l. l @ [0x0a]) ls))) = Loaded d"
  shows "(\<forall>l\<in>set ls. l \<noteq> [] \<and> length l \<le> DICT_ENTRY_MAXLEN) \<and> distinct ls \<and>
         length ls \<le> DICT_MAXLEN"
  using dict_read_lines_text [OF assms(1), of "[]" d] assms(2)
  by (simp add: dict_from_file_def sorted_dict_def)

text \<open>
  The last line of a file may lack its newline; the loader then drops the last byte
  of that line.  Two small files: \<open>b\<close>, \<open>a\<close>, \<open>cd\<close> loads as \<open>a\<close>, \<open>b\<close>, \<open>c\<close>, and a file
  with a blank line is refused.
\<close>

lemma dict_from_file_examples:
  "dict_from_file (Some [0x62, 0x0a, 0x61, 0x0a, 0x63, 0x64]) =
     Loaded [\<lparr>str = [0x61], len_entry = 1\<rparr>, \<lparr>str = [0x62], len_entry = 1\<rparr>,
             \<lparr>str = [0x63], len_entry = 1\<rparr>]"
  "dict_from_file (Some [0x62, 0x0a, 0x0a, 0x61, 0x0a]) = Null"
  by code_simp+


section \<open>Properties of the fuzz operation\<close>
























text \<open>
  The same happens to a manifest that is in order when the output does not fit: with
  room for 40 bytes the payload of the chunk cannot be written and the input, with
  its flag, is returned.
\<close>

lemma afl_custom_fuzz_no_room:
  "afl_custom_fuzz Mutation_none
     [0x63, 0x6f, 0x6d, 0x75, 0x78, 0x21, 0x21, 0x21, 0, 0, 0, 0, 1, 0, 0, 0, 1, 0, 0, 0,
      0, 0, 0, 0, 1, 0, 0, 0, 0, 0, 0, 0, 0, 0, 0, 0, 2, 0, 0, 0, 0x78] 40 =
     (Input_buffer,
      [0x63, 0x6f, 0x6d, 0x75, 0x78, 0x21, 0x21, 0x21, 0, 0, 0, 0, 1, 0, 0, 0, 1, 0, 0, 0,
       0, 0, 0, 0, 1, 0, 0, 0, 0, 0, 0, 0, 0, 0, 0, 0, 2, 0, 0, 0, 0x78])"
  by code_simp


end
